theory Spec2Isabelle
  imports Main "HOL-Library.Word" "HOL-Library.Signed_Division"
begin

section \<open>The thread-safe chained hash map of ts\_hashmap.c\<close>

subsection \<open>C integers\<close>

text \<open>
  Every integer of ts\_hashmap.c is a C \<^verbatim>\<open>int\<close>, taken here as 32 bits wide in two's
  complement and read through \<^term>\<open>sint\<close>.  C leaves three things undefined that the code
  can meet: \<^verbatim>\<open>++\<close> at \<^verbatim>\<open>INT_MAX\<close> (and \<^verbatim>\<open>--\<close> at \<^verbatim>\<open>INT_MIN\<close>), \<^verbatim>\<open>%\<close> by zero, and a
  subscript outside its array.  Each of them is a \<open>fault\<close> of the model, so that an
  execution that C does not define is never given a result.
\<close>

type_synonym c_int = "32 word"

definition INT_MAX :: c_int where
  "INT_MAX = 0x7FFFFFFF"

definition INT_MIN :: c_int where
  "INT_MIN = 0x80000000"

datatype fault =
    Division_by_zero      \<comment> \<open>\<^verbatim>\<open>key % 0\<close>\<close>
  | Signed_overflow       \<comment> \<open>\<^verbatim>\<open>++\<close> at INT\_MAX, \<^verbatim>\<open>--\<close> at INT\_MIN, \<^verbatim>\<open>INT_MIN % -1\<close>\<close>
  | Out_of_bounds         \<comment> \<open>\<^verbatim>\<open>lock[index]\<close> or \<^verbatim>\<open>table[index]\<close> outside the array\<close>
  | Null_dereference      \<comment> \<open>\<^verbatim>\<open>prev->next\<close> with \<^verbatim>\<open>prev == NULL\<close>\<close>
  | Relock                \<comment> \<open>\<^verbatim>\<open>pthread_mutex_lock\<close> on a mutex that is already held\<close>

text \<open>Sequencing of steps that may fault: the first fault ends the call.\<close>

fun and_then :: "fault + 'a \<Rightarrow> ('a \<Rightarrow> fault + 'b) \<Rightarrow> fault + 'b" where
  "and_then (Inl f) g = Inl f"
| "and_then (Inr x) g = g x"

text \<open>\<^verbatim>\<open>n++\<close> and \<^verbatim>\<open>n--\<close> on an \<^verbatim>\<open>int\<close>.\<close>

definition incr :: "c_int \<Rightarrow> fault + c_int" where
  "incr n = (if n = INT_MAX then Inl Signed_overflow else Inr (n + 1))"

definition decr :: "c_int \<Rightarrow> fault + c_int" where
  "decr n = (if n = INT_MIN then Inl Signed_overflow else Inr (n - 1))"

text \<open>
  \<^verbatim>\<open>a % b\<close> on \<^verbatim>\<open>int\<close>: the remainder of the division that truncates towards zero, so
  its sign is the sign of \<open>a\<close>.
\<close>

definition c_rem :: "c_int \<Rightarrow> c_int \<Rightarrow> fault + c_int" where
  "c_rem a b =
     (if b = 0 then Inl Division_by_zero
      else if a = INT_MIN \<and> b = - 1 then Inl Signed_overflow
      else Inr (word_of_int (sint a smod sint b)))"

text \<open>An \<^verbatim>\<open>int\<close> subscript into an array, as a position of the list that models it.\<close>

definition slot :: "c_int \<Rightarrow> 'a list \<Rightarrow> fault + nat" where
  "slot index xs =
     (if 0 \<le> sint index \<and> nat (sint index) < length xs then Inr (nat (sint index))
      else Inl Out_of_bounds)"

subsection \<open>The data\<close>

text \<open>
  The header ts\_hashmap.h is not among the sources; the two structs are read off their
  uses in ts\_hashmap.c.  A \<^verbatim>\<open>ts_entry_t\<close> has an \<^verbatim>\<open>int key\<close>, an \<^verbatim>\<open>int value\<close> and the
  link \<^verbatim>\<open>next\<close>.  Every node is allocated by \<open>put\<close> and linked into exactly one chain, so a
  chain is modelled by the list of its nodes from the head on: the \<^verbatim>\<open>next\<close> link of a
  node is the rest of the list, and \<^verbatim>\<open>NULL\<close> is the empty list.  The allocation in \<open>put\<close>
  is taken to succeed and \<^verbatim>\<open>free\<close> has no effect on the model.
\<close>

record ts_entry =
  key :: c_int
  val :: c_int      \<comment> \<open>the field \<^verbatim>\<open>value\<close>\<close>

text \<open>
  A \<^verbatim>\<open>ts_hashmap_t\<close> has the array \<^verbatim>\<open>table\<close> of chain heads, the array \<^verbatim>\<open>lock\<close> of
  mutexes (here: whether each one is held), and the integers \<^verbatim>\<open>capacity\<close>, \<^verbatim>\<open>size\<close> and
  \<^verbatim>\<open>numOps\<close>.  The last field is not part of the C struct: it records, oldest first, the
  calls of \<^verbatim>\<open>pthread_mutex_lock\<close> and \<^verbatim>\<open>pthread_mutex_unlock\<close> that were made.
\<close>

datatype lock_event = Acquire nat | Release nat

record ts_hashmap =
  table :: "ts_entry list list"
  lock :: "bool list"
  capacity :: c_int
  size_m :: c_int                 \<comment> \<open>the field \<^verbatim>\<open>size\<close>\<close>
  numOps :: c_int
  lock_log :: "lock_event list"

text \<open>
  \<^verbatim>\<open>pthread_mutex_lock(&map->lock[index])\<close> for a single thread: a mutex that is already
  held would never be granted.  \<^verbatim>\<open>pthread_mutex_unlock\<close> is only ever called with the
  subscript that the same call has locked.
\<close>

definition mutex_lock :: "c_int \<Rightarrow> ts_hashmap \<Rightarrow> fault + ts_hashmap" where
  "mutex_lock index m =
     and_then (slot index (lock m)) (\<lambda>i.
       if lock m ! i then Inl Relock
       else Inr (m\<lparr>lock := (lock m)[i := True], lock_log := lock_log m @ [Acquire i]\<rparr>))"

definition mutex_unlock :: "nat \<Rightarrow> ts_hashmap \<Rightarrow> ts_hashmap" where
  "mutex_unlock i m = m\<lparr>lock := (lock m)[i := False], lock_log := lock_log m @ [Release i]\<rparr>"

subsection \<open>initmap\<close>

text \<open>
  \<^verbatim>\<open>calloc\<close> gives \<open>capacity\<close> empty chains and the loop initialises as many mutexes; a
  capacity that is not positive gives no bucket at all.
\<close>

definition initmap :: "c_int \<Rightarrow> ts_hashmap" where
  "initmap cap =
     \<lparr>table = replicate (nat (sint cap)) [],
      lock = replicate (nat (sint cap)) False,
      capacity = cap, size_m = 0, numOps = 0, lock_log = []\<rparr>"

subsection \<open>get\<close>

text \<open>The \<^verbatim>\<open>while\<close> loop of \<open>get\<close>; both of its exits unlock the bucket.\<close>

fun get_loop :: "c_int \<Rightarrow> nat \<Rightarrow> ts_entry list \<Rightarrow> ts_hashmap \<Rightarrow> c_int \<times> ts_hashmap" where
  "get_loop k i [] m = (INT_MAX, mutex_unlock i m)"
| "get_loop k i (entry # next) m =
     (if key entry = k then (val entry, mutex_unlock i m)
      else get_loop k i next m)"

definition get :: "ts_hashmap \<Rightarrow> c_int \<Rightarrow> fault + (c_int \<times> ts_hashmap)" where
  "get m0 k =
     and_then (incr (numOps m0)) (\<lambda>n.
     and_then (c_rem k (capacity m0)) (\<lambda>index.
     and_then (mutex_lock index (m0\<lparr>numOps := n\<rparr>)) (\<lambda>m.
     and_then (slot index (table m)) (\<lambda>i.
       Inr (get_loop k i (table m ! i) m)))))"

subsection \<open>put\<close>

text \<open>
  The four \<^verbatim>\<open>return\<close> statements of \<open>put\<close>, in the order of the source.  The model returns
  the one that was taken next to the \<^verbatim>\<open>int\<close> that C returns.
\<close>

datatype put_return =
    Installed_as_head     \<comment> \<open>the bucket was empty\<close>
  | Replaced_value        \<comment> \<open>the key already exists\<close>
  | Appended_at_tail      \<comment> \<open>the end of the list was reached\<close>
  | Fell_through          \<comment> \<open>the loop ended: \<^verbatim>\<open>return -1\<close>\<close>

text \<open>
  The \<^verbatim>\<open>while\<close> loop of \<open>put\<close>.  \<open>cur_entry\<close> points into the chain of bucket \<open>i\<close>:
  \<open>seen\<close> are the nodes before it, and a write through the pointer changes the chain
  in the table.
\<close>

fun put_loop ::
  "c_int \<Rightarrow> c_int \<Rightarrow> nat \<Rightarrow> ts_entry list \<Rightarrow> ts_entry list \<Rightarrow> ts_hashmap
     \<Rightarrow> fault + ((c_int \<times> put_return) \<times> ts_hashmap)" where
  "put_loop k v i seen [] m = Inr ((- 1, Fell_through), mutex_unlock i m)"
| "put_loop k v i seen (cur_entry # next) m =
     (if key cur_entry = k then
        Inr ((val cur_entry, Replaced_value),
             mutex_unlock i (m\<lparr>table := (table m)[i := seen @ cur_entry\<lparr>val := v\<rparr> # next]\<rparr>))
      else if next = [] then
        and_then (incr (size_m m)) (\<lambda>n.
          Inr ((INT_MAX, Appended_at_tail),
               mutex_unlock i
                 (m\<lparr>table := (table m)[i := seen @ [cur_entry, \<lparr>key = k, val = v\<rparr>]],
                    size_m := n\<rparr>)))
      else put_loop k v i (seen @ [cur_entry]) next m)"

definition put ::
  "ts_hashmap \<Rightarrow> c_int \<Rightarrow> c_int \<Rightarrow> fault + ((c_int \<times> put_return) \<times> ts_hashmap)" where
  "put m0 k v =
     and_then (incr (numOps m0)) (\<lambda>n.
     and_then (c_rem k (capacity m0)) (\<lambda>index.
     and_then (mutex_lock index (m0\<lparr>numOps := n\<rparr>)) (\<lambda>m.
     and_then (slot index (table m)) (\<lambda>i.
       if table m ! i = [] then
         and_then (incr (size_m m)) (\<lambda>s.
           Inr ((INT_MAX, Installed_as_head),
                mutex_unlock i (m\<lparr>table := (table m)[i := [\<lparr>key = k, val = v\<rparr>]], size_m := s\<rparr>)))
       else put_loop k v i [] (table m ! i) m))))"

subsection \<open>del\<close>

text \<open>
  The \<^verbatim>\<open>while\<close> loop of \<open>del\<close>.  It returns the nodes up to and including \<open>prev\<close> (none
  when \<open>prev\<close> is \<^verbatim>\<open>NULL\<close>) and the chain from \<open>entry\<close> on (empty when \<open>entry\<close> is
  \<^verbatim>\<open>NULL\<close>).
\<close>

fun del_loop :: "c_int \<Rightarrow> ts_entry list \<Rightarrow> ts_entry list \<Rightarrow> ts_entry list \<times> ts_entry list" where
  "del_loop k prev [] = (prev, [])"
| "del_loop k prev (entry # next) =
     (if key entry \<noteq> k then del_loop k (prev @ [entry]) next
      else (prev, entry # next))"

definition del :: "ts_hashmap \<Rightarrow> c_int \<Rightarrow> fault + (c_int \<times> ts_hashmap)" where
  "del m0 k =
     and_then (incr (numOps m0)) (\<lambda>n.
     and_then (c_rem k (capacity m0)) (\<lambda>index.
     and_then (mutex_lock index (m0\<lparr>numOps := n\<rparr>)) (\<lambda>m.
     and_then (slot index (table m)) (\<lambda>i.
       case table m ! i of
         [] \<Rightarrow> Inr (INT_MAX, mutex_unlock i m)
       | entry # next \<Rightarrow>
           if key entry = k then
             and_then (decr (size_m m)) (\<lambda>s.
               Inr (val entry, mutex_unlock i (m\<lparr>size_m := s, table := (table m)[i := next]\<rparr>)))
           else
             (case del_loop k [] (entry # next) of
                (prev, []) \<Rightarrow> Inr (INT_MAX, mutex_unlock i m)
              | (prev, hit # after) \<Rightarrow>
                  if prev = [] then Inl Null_dereference
                  else
                    and_then (decr (size_m m)) (\<lambda>s.
                      Inr (val hit,
                           mutex_unlock i
                             (m\<lparr>table := (table m)[i := prev @ after], size_m := s\<rparr>))))))))"

subsection \<open>Sequences of calls\<close>

text \<open>A single thread that makes one call after the other on the same map.\<close>

datatype call = Get c_int | Put c_int c_int | Del c_int

fun apply_call :: "ts_hashmap \<Rightarrow> call \<Rightarrow> fault + (c_int \<times> ts_hashmap)" where
  "apply_call m (Get k) = get m k"
| "apply_call m (Put k v) = and_then (put m k v) (\<lambda>((r, how), m'). Inr (r, m'))"
| "apply_call m (Del k) = del m k"

fun run :: "ts_hashmap \<Rightarrow> call list \<Rightarrow> fault + (c_int list \<times> ts_hashmap)" where
  "run m [] = Inr ([], m)"
| "run m (c # cs) =
     and_then (apply_call m c) (\<lambda>(r, m').
     and_then (run m' cs) (\<lambda>(rs, m''). Inr (r # rs, m'')))"

subsection \<open>Vocabulary of the properties\<close>

text \<open>The bucket of a key: the position that \<^verbatim>\<open>key % map->capacity\<close> selects in the table.\<close>

definition bucket :: "ts_hashmap \<Rightarrow> c_int \<Rightarrow> fault + nat" where
  "bucket m k = and_then (c_rem k (capacity m)) (\<lambda>index. slot index (table m))"

text \<open>
  A map has the shape that \<open>initmap\<close> gives it when both arrays have \<open>capacity\<close>
  elements; it is ready for a call when, in addition, no mutex is held.
\<close>

definition shaped :: "ts_hashmap \<Rightarrow> bool" where
  "shaped m \<longleftrightarrow>
     length (table m) = nat (sint (capacity m)) \<and> length (lock m) = nat (sint (capacity m))"

definition ready :: "ts_hashmap \<Rightarrow> bool" where
  "ready m \<longleftrightarrow> shaped m \<and> True \<notin> set (lock m)"

text \<open>The state inside the critical section of a call on bucket \<open>i\<close>.\<close>

definition entered :: "nat \<Rightarrow> ts_hashmap \<Rightarrow> ts_hashmap" where
  "entered i m =
     m\<lparr>numOps := numOps m + 1, lock := (lock m)[i := True],
       lock_log := lock_log m @ [Acquire i]\<rparr>"

text \<open>
  What every completed call on bucket \<open>i\<close> leaves behind besides its changes to the
  chain and to \<open>size\<close>: one more operation counted, the mutex of the bucket locked and
  unlocked again.
\<close>

definition finished :: "nat \<Rightarrow> ts_hashmap \<Rightarrow> ts_hashmap" where
  "finished i m =
     m\<lparr>numOps := numOps m + 1, lock_log := lock_log m @ [Acquire i, Release i]\<rparr>"

subsection \<open>What holds between calls\<close>

text \<open>
  All entries of the map, bucket after bucket.  Between calls every entry sits in the
  bucket of its key, no chain has a key twice, and \<open>size\<close> is the number of entries.
\<close>

definition entries :: "ts_hashmap \<Rightarrow> ts_entry list" where
  "entries m = concat (table m)"

definition placed :: "ts_hashmap \<Rightarrow> bool" where
  "placed m \<longleftrightarrow>
     (\<forall>i \<in> {..<length (table m)}. \<forall>e \<in> set (table m ! i). bucket m (key e) = Inr i)"

definition chains_distinct :: "ts_hashmap \<Rightarrow> bool" where
  "chains_distinct m \<longleftrightarrow> (\<forall>chain \<in> set (table m). distinct (map key chain))"

definition counted :: "ts_hashmap \<Rightarrow> bool" where
  "counted m \<longleftrightarrow> sint (size_m m) = int (length (entries m))"

definition consistent :: "ts_hashmap \<Rightarrow> bool" where
  "consistent m \<longleftrightarrow> ready m \<and> placed m \<and> chains_distinct m \<and> counted m"

subsection \<open>The map as a finite mapping\<close>

text \<open>
  What a caller can observe of a map: the value that belongs to each key.  A call
  answers from this mapping and changes it as the interface says: \<open>get\<close> leaves it,
  \<open>put\<close> binds the key, \<open>del\<close> removes the binding; the answer is the value that was
  bound, or \<open>INT_MAX\<close>.
\<close>

definition pairs :: "ts_entry list \<Rightarrow> (c_int \<times> c_int) list" where
  "pairs chain = map (\<lambda>e. (key e, val e)) chain"

definition lookup :: "ts_hashmap \<Rightarrow> c_int \<Rightarrow> c_int option" where
  "lookup m k =
     (case bucket m k of Inl f \<Rightarrow> None | Inr i \<Rightarrow> map_of (pairs (table m ! i)) k)"

fun key_of :: "call \<Rightarrow> c_int" where
  "key_of (Get k) = k"
| "key_of (Put k v) = k"
| "key_of (Del k) = k"

fun writes :: "c_int \<Rightarrow> call \<Rightarrow> bool" where
  "writes k (Get k') = False"
| "writes k (Put k' v) = (k' = k)"
| "writes k (Del k') = (k' = k)"

fun stores :: "c_int \<Rightarrow> call \<Rightarrow> bool" where
  "stores k (Put k' v) = (k' = k)"
| "stores k c = False"

fun effect :: "call \<Rightarrow> (c_int \<rightharpoonup> c_int) \<Rightarrow> (c_int \<rightharpoonup> c_int)" where
  "effect (Get k) f = f"
| "effect (Put k v) f = f(k \<mapsto> v)"
| "effect (Del k) f = f(k := None)"

definition answer :: "call \<Rightarrow> (c_int \<rightharpoonup> c_int) \<Rightarrow> c_int" where
  "answer c f = (case f (key_of c) of None \<Rightarrow> INT_MAX | Some v \<Rightarrow> v)"

subsection \<open>Several threads\<close>

text \<open>
  The mutex operations of a thread, as far as they matter for blocking: a thread works
  through its list of operations; \<^verbatim>\<open>pthread_mutex_lock\<close> is granted only while the mutex is
  free, \<^verbatim>\<open>pthread_mutex_unlock\<close> is always possible.  A configuration is the state of the
  mutexes with what each thread still has to do, and \<open>turn\<close> is one operation of one
  thread.  \<open>call_pairs\<close> holds of a list of operations that consists of calls which lock
  one mutex and unlock it again.
\<close>

fun call_pairs :: "lock_event list \<Rightarrow> bool" where
  "call_pairs [] = True"
| "call_pairs (Acquire i # Release j # es) = (i = j \<and> call_pairs es)"
| "call_pairs es = False"

fun mutex_of :: "lock_event \<Rightarrow> nat" where
  "mutex_of (Acquire i) = i"
| "mutex_of (Release i) = i"

inductive turn ::
  "bool list \<times> lock_event list list \<Rightarrow> bool list \<times> lock_event list list \<Rightarrow> bool" where
  locks: "t < length ps \<Longrightarrow> ps ! t = Acquire i # es \<Longrightarrow> i < length held \<Longrightarrow> \<not> held ! i \<Longrightarrow>
     turn (held, ps) (held[i := True], ps[t := es])"
| unlocks: "t < length ps \<Longrightarrow> ps ! t = Release i # es \<Longrightarrow>
     turn (held, ps) (held[i := False], ps[t := es])"

code_pred turn .

text \<open>
  What a thread still has to do is \<open>in_call\<close>: it is between two calls, or inside a call
  whose unlock comes next.  A configuration is \<open>orderly\<close> when this holds of every thread,
  all subscripts are those of existing mutexes, and every mutex that is held is held by
  a thread whose next operation unlocks it.
\<close>

fun in_call :: "lock_event list \<Rightarrow> bool" where
  "in_call (Release i # es) = call_pairs es"
| "in_call es = call_pairs es"

fun releases :: "nat \<Rightarrow> lock_event list \<Rightarrow> bool" where
  "releases i (Release j # es) = (i = j)"
| "releases i es = False"

definition orderly :: "bool list \<times> lock_event list list \<Rightarrow> bool" where
  "orderly c \<longleftrightarrow>
     (\<forall>p \<in> set (snd c). in_call p \<and> (\<forall>e \<in> set p. mutex_of e < length (fst c))) \<and>
     (\<forall>i \<in> {..<length (fst c)}. fst c ! i \<longrightarrow>
        (\<exists>t \<in> {..<length (snd c)}. releases i (snd c ! t)))"

subsection \<open>An example state\<close>

text \<open>
  The map of capacity 4 after \<open>put(1, 10)\<close> and \<open>put(5, 20)\<close>: both keys fall into
  bucket 1.
\<close>

definition collided :: ts_hashmap where
  "collided =
     \<lparr>table = [[], [\<lparr>key = 1, val = 10\<rparr>, \<lparr>key = 5, val = 20\<rparr>], [], []],
      lock = [False, False, False, False],
      capacity = 4, size_m = 2, numOps = 2,
      lock_log = [Acquire 1, Release 1, Acquire 1, Release 1]\<rparr>"

section \<open>Integer facts\<close>

lemma sint_INT_MAX: "sint INT_MAX = 2147483647"
  by (simp add: INT_MAX_def)

lemma sint_INT_MIN: "sint INT_MIN = - 2147483648"
  by (simp add: INT_MIN_def)

lemma sint_range: "- 2147483648 \<le> sint n \<and> sint n \<le> 2147483647" for n :: c_int
  using sint_ge [of n] sint_lt [of n] by simp

lemma sint_of_int_small:
  "- 2147483648 \<le> x \<Longrightarrow> x \<le> 2147483647 \<Longrightarrow> sint (word_of_int x :: c_int) = x"
  by (simp add: sint_sbintrunc' signed_take_bit_int_eq_self)

lemma sint_incr: "n \<noteq> INT_MAX \<Longrightarrow> sint (n + 1) = sint n + 1" for n :: c_int
proof -
  assume "n \<noteq> INT_MAX"
  then have "sint n \<noteq> sint INT_MAX"
    using signed_word_eqI [of n INT_MAX, where ?'a = int] by blast
  then have "sint n \<noteq> 2147483647" by (simp add: sint_INT_MAX)
  with sint_range [of n] have "- 2147483648 \<le> sint n + 1" "sint n + 1 \<le> 2147483647" by auto
  then show ?thesis
    by (simp add: sint_word_ariths signed_take_bit_int_eq_self)
qed

lemma sint_decr: "n \<noteq> INT_MIN \<Longrightarrow> sint (n - 1) = sint n - 1" for n :: c_int
proof -
  assume "n \<noteq> INT_MIN"
  then have "sint n \<noteq> sint INT_MIN"
    using signed_word_eqI [of n INT_MIN, where ?'a = int] by blast
  then have "sint n \<noteq> - 2147483648" by (simp add: sint_INT_MIN)
  with sint_range [of n] have "- 2147483648 \<le> sint n - 1" "sint n - 1 \<le> 2147483647" by auto
  then show ?thesis
    by (simp add: sint_word_ariths signed_take_bit_int_eq_self)
qed

text \<open>The truncating remainder by a positive divisor.\<close>

lemma smod_bounds:
  fixes a b :: int
  assumes "0 < b"
  shows "- b < a smod b \<and> a smod b < b \<and> (0 \<le> a \<longrightarrow> 0 \<le> a smod b) \<and>
    (a \<le> 0 \<longrightarrow> a smod b \<le> 0) \<and> (a smod b = 0 \<longleftrightarrow> b dvd a)"
proof -
  have m: "0 \<le> \<bar>a\<bar> mod b" "\<bar>a\<bar> mod b < b" using assms by simp_all
  have d: "(\<bar>a\<bar> mod b = 0) = (b dvd a)" by (simp add: dvd_eq_mod_eq_0 [symmetric])
  show ?thesis
  proof (cases "a < 0")
    case True
    then have "a smod b = - (\<bar>a\<bar> mod b)" using assms by (simp add: signed_modulo_int_def)
    moreover have "(\<bar>a\<bar> mod b = 0) = (- (\<bar>a\<bar> mod b) = 0)" by simp
    ultimately show ?thesis using m d True by linarith
  next
    case False
    then have "a smod b = \<bar>a\<bar> mod b"
      using assms by (cases "a = 0") (simp_all add: signed_modulo_int_def)
    then show ?thesis using m d False by (cases "a = 0") auto
  qed
qed

lemma incr_Inr: "n \<noteq> INT_MAX \<Longrightarrow> incr n = Inr (n + 1)"
  by (simp add: incr_def)

lemma decr_Inr: "n \<noteq> INT_MIN \<Longrightarrow> decr n = Inr (n - 1)"
  by (simp add: decr_def)

lemma and_then_Inr_iff:
  "and_then x g = Inr y \<longleftrightarrow> (\<exists>a. x = Inr a \<and> g a = Inr y)"
  by (cases x) simp_all

section \<open>Entering and leaving the critical section\<close>

lemma bucket_bound: "bucket m k = Inr i \<Longrightarrow> i < length (table m)"
  by (auto simp: bucket_def slot_def and_then_Inr_iff split: if_splits)

lemma unlock_relock:
  "i < length ls \<Longrightarrow> True \<notin> set ls \<Longrightarrow> ls[i := True, i := False] = ls"
proof -
  assume "i < length ls" "True \<notin> set ls"
  then have "ls ! i = False" by (metis nth_mem)
  then show ?thesis using list_update_id [of ls i] by simp
qed

lemma enter:
  assumes "ready m" and "bucket m k = Inr i"
  shows "\<exists>index. c_rem k (capacity m) = Inr index \<and> slot index (table m) = Inr i \<and>
           mutex_lock index (m\<lparr>numOps := numOps m + 1\<rparr>) = Inr (entered i m)"
proof -
  from assms(2) obtain index where c: "c_rem k (capacity m) = Inr index"
    and s: "slot index (table m) = Inr i"
    by (auto simp: bucket_def and_then_Inr_iff)
  from s have i: "0 \<le> sint index" "nat (sint index) = i" "i < length (table m)"
    by (auto simp: slot_def split: if_splits)
  from assms(1) i have l: "i < length (lock m)" by (simp add: ready_def shaped_def)
  with assms(1) have "\<not> lock m ! i" by (metis nth_mem ready_def)
  moreover from i l have "slot index (lock m) = Inr i" by (simp add: slot_def)
  ultimately have "mutex_lock index (m\<lparr>numOps := numOps m + 1\<rparr>) = Inr (entered i m)"
    by (simp add: mutex_lock_def entered_def)
  with c s show ?thesis by blast
qed

lemma leave_changed:
  assumes "ready m" and "i < length (table m)"
  shows "mutex_unlock i (entered i m\<lparr>table := t, size_m := s\<rparr>) =
    finished i (m\<lparr>table := t, size_m := s\<rparr>)"
proof -
  from assms have "(lock m)[i := True, i := False] = lock m"
    by (intro unlock_relock) (simp_all add: ready_def shaped_def)
  then show ?thesis by (simp add: mutex_unlock_def finished_def entered_def)
qed

lemma leave_changed':
  assumes "ready m" and "i < length (table m)"
  shows "mutex_unlock i (entered i m\<lparr>size_m := s, table := t\<rparr>) =
    finished i (m\<lparr>table := t, size_m := s\<rparr>)"
proof -
  from assms have "(lock m)[i := True, i := False] = lock m"
    by (intro unlock_relock) (simp_all add: ready_def shaped_def)
  then show ?thesis by (simp add: mutex_unlock_def finished_def entered_def)
qed

lemma leave_table:
  assumes "ready m" and "i < length (table m)"
  shows "mutex_unlock i (entered i m\<lparr>table := t\<rparr>) = finished i (m\<lparr>table := t\<rparr>)"
  using leave_changed [OF assms, where t = t and s = "size_m m"] by (simp add: entered_def)

lemma leave_same:
  assumes "ready m" and "i < length (table m)"
  shows "mutex_unlock i (entered i m) = finished i m"
  using leave_table [OF assms, where t = "table m"] by (simp add: entered_def)

lemma entered_fields [simp]:
  "table (entered i m) = table m" "size_m (entered i m) = size_m m"
  "capacity (entered i m) = capacity m"
  by (simp_all add: entered_def)

lemma first_match:
  "k \<in> key ` set chain \<Longrightarrow>
   \<exists>pre e post. chain = pre @ e # post \<and> key e = k \<and> k \<notin> key ` set pre"
proof -
  assume "k \<in> key ` set chain"
  then have "\<exists>e\<in>set chain. key e = k" by auto
  from split_list_first_prop [OF this] show ?thesis by (metis image_iff)
qed

section \<open>The three functions, case by case\<close>

subsection \<open>get\<close>

lemma get_loop_hit:
  "key e = k \<Longrightarrow> k \<notin> key ` set pre \<Longrightarrow>
   get_loop k i (pre @ e # post) m = (val e, mutex_unlock i m)"
  by (induction pre) auto

lemma get_loop_miss:
  "k \<notin> key ` set chain \<Longrightarrow> get_loop k i chain m = (INT_MAX, mutex_unlock i m)"
  by (induction chain) auto

lemma get_start:
  assumes "ready m" and "bucket m k = Inr i" and "numOps m \<noteq> INT_MAX"
  shows "get m k = Inr (get_loop k i (table m ! i) (entered i m))"
proof -
  from enter [OF assms(1,2)] obtain index where
    "c_rem k (capacity m) = Inr index" "slot index (table m) = Inr i"
    "mutex_lock index (m\<lparr>numOps := numOps m + 1\<rparr>) = Inr (entered i m)"
    by blast
  then show ?thesis using assms(3) by (simp add: get_def incr_Inr)
qed

lemma get_present:
  assumes "ready m" and "bucket m k = Inr i" and "numOps m \<noteq> INT_MAX"
    and "table m ! i = pre @ e # post" and "key e = k" and "k \<notin> key ` set pre"
  shows "get m k = Inr (val e, finished i m)"
  using get_start [OF assms(1-3)] assms(4) get_loop_hit [OF assms(5,6)]
    leave_same [OF assms(1) bucket_bound [OF assms(2)]]
  by simp

lemma get_absent:
  assumes "ready m" and "bucket m k = Inr i" and "numOps m \<noteq> INT_MAX"
    and "k \<notin> key ` set (table m ! i)"
  shows "get m k = Inr (INT_MAX, finished i m)"
  using get_start [OF assms(1-3)] get_loop_miss [OF assms(4)]
    leave_same [OF assms(1) bucket_bound [OF assms(2)]]
  by simp

subsection \<open>put\<close>

lemma put_loop_hit:
  "key e = k \<Longrightarrow> k \<notin> key ` set pre \<Longrightarrow>
   put_loop k v i seen (pre @ e # post) m =
     Inr ((val e, Replaced_value),
          mutex_unlock i (m\<lparr>table := (table m)[i := seen @ pre @ e\<lparr>val := v\<rparr> # post]\<rparr>))"
  by (induction pre arbitrary: seen) auto

lemma put_loop_miss:
  "chain \<noteq> [] \<Longrightarrow> k \<notin> key ` set chain \<Longrightarrow>
   put_loop k v i seen chain m =
     and_then (incr (size_m m)) (\<lambda>n.
       Inr ((INT_MAX, Appended_at_tail),
            mutex_unlock i
              (m\<lparr>table := (table m)[i := seen @ chain @ [\<lparr>key = k, val = v\<rparr>]],
                 size_m := n\<rparr>)))"
proof (induction chain arbitrary: seen)
  case Nil
  then show ?case by simp
next
  case (Cons c chain)
  then show ?case by (cases "chain = []") auto
qed

lemma put_start:
  assumes "ready m" and "bucket m k = Inr i" and "numOps m \<noteq> INT_MAX"
  shows "put m k v =
     (if table m ! i = [] then
         and_then (incr (size_m m)) (\<lambda>s.
           Inr ((INT_MAX, Installed_as_head),
                mutex_unlock i
                  (entered i m\<lparr>table := (table m)[i := [\<lparr>key = k, val = v\<rparr>]], size_m := s\<rparr>)))
       else put_loop k v i [] (table m ! i) (entered i m))"
proof -
  from enter [OF assms(1,2)] obtain index where
    "c_rem k (capacity m) = Inr index" "slot index (table m) = Inr i"
    "mutex_lock index (m\<lparr>numOps := numOps m + 1\<rparr>) = Inr (entered i m)"
    by blast
  then show ?thesis using assms(3) by (simp add: put_def incr_Inr)
qed

lemma put_empty:
  assumes "ready m" and "bucket m k = Inr i" and "numOps m \<noteq> INT_MAX"
    and "table m ! i = []" and "size_m m \<noteq> INT_MAX"
  shows "put m k v = Inr ((INT_MAX, Installed_as_head),
           finished i (m\<lparr>table := (table m)[i := [\<lparr>key = k, val = v\<rparr>]],
                          size_m := size_m m + 1\<rparr>))"
  using put_start [OF assms(1-3)] assms(4,5)
    leave_changed [OF assms(1) bucket_bound [OF assms(2)]]
  by (simp add: incr_Inr)

lemma put_replace:
  assumes "ready m" and "bucket m k = Inr i" and "numOps m \<noteq> INT_MAX"
    and "table m ! i = pre @ e # post" and "key e = k" and "k \<notin> key ` set pre"
  shows "put m k v = Inr ((val e, Replaced_value),
           finished i (m\<lparr>table := (table m)[i := pre @ e\<lparr>val := v\<rparr> # post]\<rparr>))"
  using put_start [OF assms(1-3)] assms(4)
    put_loop_hit [OF assms(5,6), of v i "[]" post "entered i m"]
    leave_table [OF assms(1) bucket_bound [OF assms(2)]]
  by simp

lemma put_append:
  assumes "ready m" and "bucket m k = Inr i" and "numOps m \<noteq> INT_MAX"
    and "table m ! i \<noteq> []" and "k \<notin> key ` set (table m ! i)" and "size_m m \<noteq> INT_MAX"
  shows "put m k v = Inr ((INT_MAX, Appended_at_tail),
           finished i (m\<lparr>table := (table m)[i := table m ! i @ [\<lparr>key = k, val = v\<rparr>]],
                          size_m := size_m m + 1\<rparr>))"
  using put_start [OF assms(1-3)] assms(4,6)
    put_loop_miss [OF assms(4,5), of v i "[]" "entered i m"]
    leave_changed [OF assms(1) bucket_bound [OF assms(2)]]
  by (simp add: incr_Inr)

subsection \<open>del\<close>

lemma del_loop_hit:
  "key e = k \<Longrightarrow> k \<notin> key ` set pre \<Longrightarrow>
   del_loop k prev (pre @ e # post) = (prev @ pre, e # post)"
  by (induction pre arbitrary: prev) auto

lemma del_loop_miss:
  "k \<notin> key ` set chain \<Longrightarrow> del_loop k prev chain = (prev @ chain, [])"
  by (induction chain arbitrary: prev) auto

lemma del_start:
  assumes "ready m" and "bucket m k = Inr i" and "numOps m \<noteq> INT_MAX"
  shows "del m k =
     (case table m ! i of
         [] \<Rightarrow> Inr (INT_MAX, mutex_unlock i (entered i m))
       | entry # rest \<Rightarrow>
           if key entry = k then
             and_then (decr (size_m m)) (\<lambda>s.
               Inr (val entry,
                    mutex_unlock i (entered i m\<lparr>size_m := s, table := (table m)[i := rest]\<rparr>)))
           else
             (case del_loop k [] (entry # rest) of
                (prev, []) \<Rightarrow> Inr (INT_MAX, mutex_unlock i (entered i m))
              | (prev, hit # after) \<Rightarrow>
                  if prev = [] then Inl Null_dereference
                  else
                    and_then (decr (size_m m)) (\<lambda>s.
                      Inr (val hit,
                           mutex_unlock i
                             (entered i m\<lparr>table := (table m)[i := prev @ after],
                                           size_m := s\<rparr>)))))"
proof -
  from enter [OF assms(1,2)] obtain index where
    "c_rem k (capacity m) = Inr index" "slot index (table m) = Inr i"
    "mutex_lock index (m\<lparr>numOps := numOps m + 1\<rparr>) = Inr (entered i m)"
    by blast
  then show ?thesis using assms(3)
    by (simp add: del_def incr_Inr cong: list.case_cong prod.case_cong if_cong)
qed

lemma del_absent:
  assumes "ready m" and "bucket m k = Inr i" and "numOps m \<noteq> INT_MAX"
    and "k \<notin> key ` set (table m ! i)"
  shows "del m k = Inr (INT_MAX, finished i m)"
proof (cases "table m ! i")
  case Nil
  then show ?thesis
    using del_start [OF assms(1-3)] leave_same [OF assms(1) bucket_bound [OF assms(2)]]
    by simp
next
  case (Cons entry rest)
  with assms(4) have "key entry \<noteq> k" by auto
  moreover have "del_loop k [] (table m ! i) = (table m ! i, [])"
    using del_loop_miss [OF assms(4), of "[]"] by simp
  ultimately show ?thesis using Cons
    using del_start [OF assms(1-3)] leave_same [OF assms(1) bucket_bound [OF assms(2)]]
    by simp
qed

lemma del_head:
  assumes "ready m" and "bucket m k = Inr i" and "numOps m \<noteq> INT_MAX"
    and "table m ! i = e # post" and "key e = k" and "size_m m \<noteq> INT_MIN"
  shows "del m k =
    Inr (val e, finished i (m\<lparr>table := (table m)[i := post], size_m := size_m m - 1\<rparr>))"
  using del_start [OF assms(1-3)] assms(4-6)
    leave_changed' [OF assms(1) bucket_bound [OF assms(2)]]
  by (simp add: decr_Inr)

lemma del_inner:
  assumes "ready m" and "bucket m k = Inr i" and "numOps m \<noteq> INT_MAX"
    and "table m ! i = pre @ e # post" and "pre \<noteq> []" and "key e = k"
    and "k \<notin> key ` set pre" and "size_m m \<noteq> INT_MIN"
  shows "del m k =
    Inr (val e, finished i (m\<lparr>table := (table m)[i := pre @ post], size_m := size_m m - 1\<rparr>))"
proof -
  from assms(5) obtain p ps where pre: "pre = p # ps" by (cases pre) auto
  with assms(7) have "key p \<noteq> k" by auto
  moreover have "del_loop k [] (p # ps @ e # post) = (pre, e # post)"
    using del_loop_hit [OF assms(6,7), of "[]" post] pre by simp
  ultimately show ?thesis
    using del_start [OF assms(1-3)] assms(4,5,8) pre
      leave_changed [OF assms(1) bucket_bound [OF assms(2)]]
    by (simp add: decr_Inr)
qed

lemma finished_fields [simp]:
  "table (finished i m) = table m" "size_m (finished i m) = size_m m"
  "capacity (finished i m) = capacity m" "lock (finished i m) = lock m"
  "numOps (finished i m) = numOps m + 1"
  "lock_log (finished i m) = lock_log m @ [Acquire i, Release i]"
  by (simp_all add: finished_def)

lemma ready_finished [simp]: "ready (finished i m) = ready m"
  by (simp add: ready_def shaped_def)

lemma bucket_finished [simp]: "bucket (finished i m) k = bucket m k"
  by (simp add: bucket_def slot_def)

lemma ready_chain_update [simp]:
  "ready (m\<lparr>table := (table m)[i := c], size_m := s\<rparr>) = ready m"
  "ready (m\<lparr>table := (table m)[i := c]\<rparr>) = ready m"
  by (simp_all add: ready_def shaped_def)

lemma bucket_chain_update [simp]:
  "bucket (m\<lparr>table := (table m)[i := c], size_m := s\<rparr>) k = bucket m k"
  "bucket (m\<lparr>table := (table m)[i := c]\<rparr>) k = bucket m k"
  by (simp_all add: bucket_def slot_def)


lemma snd_get_loop: "snd (get_loop k i chain m) = mutex_unlock i m"
  by (induction chain) auto

section \<open>The example states\<close>

lemma initmap_4:
  "initmap 4 = \<lparr>table = [[], [], [], []], lock = [False, False, False, False],
      capacity = 4, size_m = 0, numOps = 0, lock_log = []\<rparr>"
  by (simp add: initmap_def numeral_eq_Suc)


lemma ready_collided: "ready collided"
  by (simp add: collided_def ready_def shaped_def)

lemma c_rem_examples:
  "c_rem 1 4 = Inr 1" "c_rem 5 4 = Inr 1" "c_rem 9 4 = Inr 1" "c_rem 2 4 = Inr 2"
  "c_rem (- 1) 4 = Inr (- 1)" "c_rem (- 4) 4 = Inr 0"
  by (simp_all add: c_rem_def INT_MIN_def signed_modulo_int_def)

lemma bucket_examples:
  "bucket (initmap 4) 1 = Inr 1" "bucket collided 1 = Inr 1" "bucket collided 5 = Inr 1"
  "bucket collided 9 = Inr 1" "bucket collided 2 = Inr 2"
  by (simp_all add: bucket_def c_rem_examples slot_def initmap_4 collided_def)

section \<open>The calls one by one\<close>







text \<open>
  Claim C9.  A call of \<open>get\<close> that returns leaves the table (every chain with its
  entries, values and order), \<open>size\<close>, \<open>capacity\<close> and the mutexes as they were; the
  operation counter is one higher.
\<close>

theorem get_read_only:
  assumes "get m k = Inr (r, m')"
  shows "table m' = table m \<and> size_m m' = size_m m \<and> capacity m' = capacity m \<and>
         lock m' = lock m \<and> numOps m' = numOps m + 1 \<and>
         sint (numOps m') = sint (numOps m) + 1"
proof -
  from assms obtain n index m1 i where n: "incr (numOps m) = Inr n"
    and l: "mutex_lock index (m\<lparr>numOps := n\<rparr>) = Inr m1"
    and g: "get_loop k i (table m1 ! i) m1 = (r, m')"
    and s: "slot index (table m1) = Inr i"
    by (auto simp: get_def and_then_Inr_iff)
  from n have n': "numOps m \<noteq> INT_MAX" "n = numOps m + 1"
    by (auto simp: incr_def split: if_splits)
  from s have i: "i = nat (sint index)" by (auto simp: slot_def split: if_splits)
  from l i have f: "i < length (lock m)" "\<not> lock m ! i"
    and m1: "m1 = m\<lparr>numOps := n, lock := (lock m)[i := True],
                      lock_log := lock_log m @ [Acquire i]\<rparr>"
    by (auto simp: mutex_lock_def slot_def and_then_Inr_iff split: if_splits)
  from g have "m' = mutex_unlock i m1" using snd_get_loop [of k i "table m1 ! i" m1] by simp
  moreover from f have "(lock m)[i := True, i := False] = lock m"
    using list_update_id [of "lock m" i] by simp
  ultimately show ?thesis using m1 n' by (simp add: mutex_unlock_def sint_incr)
qed

theorem get_read_only_witness:
  "get collided 5 = Inr (20, finished 1 collided) \<and>
   table (finished 1 collided) = table collided \<and>
   size_m (finished 1 collided) = size_m collided \<and>
   capacity (finished 1 collided) = capacity collided \<and>
   lock (finished 1 collided) = lock collided \<and>
   numOps (finished 1 collided) = numOps collided + 1 \<and>
   sint (numOps (finished 1 collided)) = sint (numOps collided) + 1"
proof -
  have g: "get collided 5 = Inr (20, finished 1 collided)"
    using get_present [OF ready_collided bucket_examples(3), of "[\<lparr>key = 1, val = 10\<rparr>]"
        "\<lparr>key = 5, val = 20\<rparr>" "[]"]
    by (simp add: collided_def INT_MAX_def)
  from get_read_only [OF g] g show ?thesis by simp
qed



section \<open>Every returning call, read backwards\<close>

lemma put_cases:
  assumes "ready m" and "put m k v = Inr ((r, how), m')"
  shows "\<exists>i. bucket m k = Inr i \<and> numOps m \<noteq> INT_MAX \<and>
    ((\<exists>pre e post. table m ! i = pre @ e # post \<and> key e = k \<and> k \<notin> key ` set pre \<and>
        r = val e \<and>
        m' = finished i (m\<lparr>table := (table m)[i := pre @ e\<lparr>val := v\<rparr> # post],
                            size_m := size_m m\<rparr>))
     \<or> (k \<notin> key ` set (table m ! i) \<and> size_m m \<noteq> INT_MAX \<and> r = INT_MAX \<and>
        m' = finished i (m\<lparr>table := (table m)[i := table m ! i @ [\<lparr>key = k, val = v\<rparr>]],
                            size_m := size_m m + 1\<rparr>)))"
proof -
  from assms(2) have n: "numOps m \<noteq> INT_MAX"
    by (auto simp: put_def and_then_Inr_iff incr_def split: if_splits)
  from assms(2) obtain i where b: "bucket m k = Inr i"
    by (auto simp: put_def bucket_def and_then_Inr_iff mutex_lock_def split: if_splits)
  note start = put_start [OF assms(1) b n, of v]
  show ?thesis
  proof (cases "k \<in> key ` set (table m ! i)")
    case True
    from first_match [OF this] obtain pre e post where
      d: "table m ! i = pre @ e # post" "key e = k" "k \<notin> key ` set pre" by blast
    from put_replace [OF assms(1) b n d, of v] assms(2)
    have "r = val e"
      "m' = finished i (m\<lparr>table := (table m)[i := pre @ e\<lparr>val := v\<rparr> # post]\<rparr>)"
      by simp_all
    with d b n show ?thesis by auto
  next
    case False
    have s: "size_m m \<noteq> INT_MAX"
    proof
      assume "size_m m = INT_MAX"
      then have "incr (size_m m) = Inl Signed_overflow" by (simp add: incr_def)
      with start put_loop_miss [OF _ False, of v i "[]" "entered i m"] assms(2)
      show False by (cases "table m ! i = []") simp_all
    qed
    have "put m k v = Inr ((INT_MAX, how),
        finished i (m\<lparr>table := (table m)[i := table m ! i @ [\<lparr>key = k, val = v\<rparr>]],
                            size_m := size_m m + 1\<rparr>)) \<and> r = INT_MAX"
    proof (cases "table m ! i = []")
      case True
      with put_empty [OF assms(1) b n True s, of v] assms(2) show ?thesis by simp
    next
      case filled: False
      with put_append [OF assms(1) b n filled False s, of v] assms(2) show ?thesis by simp
    qed
    with assms(2) False s b n show ?thesis by auto
  qed
qed

lemma del_cases:
  assumes "ready m" and "del m k = Inr (r, m')"
  shows "\<exists>i. bucket m k = Inr i \<and> numOps m \<noteq> INT_MAX \<and>
    ((k \<notin> key ` set (table m ! i) \<and> r = INT_MAX \<and> m' = finished i m)
     \<or> (\<exists>pre e post. table m ! i = pre @ e # post \<and> key e = k \<and> k \<notin> key ` set pre \<and>
        size_m m \<noteq> INT_MIN \<and> r = val e \<and>
        m' = finished i (m\<lparr>table := (table m)[i := pre @ post], size_m := size_m m - 1\<rparr>)))"
proof -
  from assms(2) have n: "numOps m \<noteq> INT_MAX"
    by (auto simp: del_def and_then_Inr_iff incr_def split: if_splits)
  from assms(2) obtain i where b: "bucket m k = Inr i"
    by (auto simp: del_def bucket_def and_then_Inr_iff mutex_lock_def split: if_splits)
  note start = del_start [OF assms(1) b n]
  show ?thesis
  proof (cases "k \<in> key ` set (table m ! i)")
    case False
    with del_absent [OF assms(1) b n False] assms(2) b n show ?thesis by auto
  next
    case True
    from first_match [OF this] obtain pre e post where
      d: "table m ! i = pre @ e # post" "key e = k" "k \<notin> key ` set pre" by blast
    have s: "size_m m \<noteq> INT_MIN"
    proof
      assume "size_m m = INT_MIN"
      then have z: "decr (size_m m) = Inl Signed_overflow" by (simp add: decr_def)
      show False
      proof (cases pre)
        case Nil
        with start d z assms(2) show False by simp
      next
        case (Cons p ps)
        with d(3) have "key p \<noteq> k" by auto
        moreover have "del_loop k [] (p # ps @ e # post) = (pre, e # post)"
          using del_loop_hit [OF d(2,3), of "[]" post] Cons by simp
        ultimately show False using start d z assms(2) Cons by simp
      qed
    qed
    have "del m k = Inr (val e,
        finished i (m\<lparr>table := (table m)[i := pre @ post], size_m := size_m m - 1\<rparr>))"
    proof (cases "pre = []")
      case True
      with del_head [OF assms(1) b n _ d(2) s, of post] d(1) show ?thesis by simp
    next
      case False
      with del_inner [OF assms(1) b n d(1) False d(2,3) s] show ?thesis by simp
    qed
    with assms(2) d s b n show ?thesis by auto
  qed
qed

lemma get_cases:
  assumes "ready m" and "get m k = Inr (r, m')"
  shows "\<exists>i. bucket m k = Inr i \<and> numOps m \<noteq> INT_MAX \<and> m' = finished i m \<and>
    ((\<exists>pre e post. table m ! i = pre @ e # post \<and> key e = k \<and> k \<notin> key ` set pre \<and>
        r = val e)
     \<or> (k \<notin> key ` set (table m ! i) \<and> r = INT_MAX))"
proof -
  from assms(2) have n: "numOps m \<noteq> INT_MAX"
    by (auto simp: get_def and_then_Inr_iff incr_def split: if_splits)
  from assms(2) obtain i where b: "bucket m k = Inr i"
    by (auto simp: get_def bucket_def and_then_Inr_iff mutex_lock_def split: if_splits)
  show ?thesis
  proof (cases "k \<in> key ` set (table m ! i)")
    case False
    with get_absent [OF assms(1) b n False] assms(2) b n show ?thesis by auto
  next
    case True
    from first_match [OF this] obtain pre e post where
      d: "table m ! i = pre @ e # post" "key e = k" "k \<notin> key ` set pre" by blast
    with get_present [OF assms(1) b n d] assms(2) b n show ?thesis by auto
  qed
qed

section \<open>The invariant\<close>

lemma length_concat_update:
  "i < length t \<Longrightarrow>
   length (concat (t[i := c])) + length (t ! i) = length (concat t) + length c"
proof (induction t arbitrary: i)
  case Nil
  then show ?case by simp
next
  case (Cons a t)
  then show ?case by (cases i) auto
qed

lemma in_entries_iff:
  assumes "placed m" and "bucket m k = Inr i"
  shows "k \<in> key ` set (entries m) \<longleftrightarrow> k \<in> key ` set (table m ! i)"
proof
  assume "k \<in> key ` set (entries m)"
  then obtain e chain where e: "e \<in> set chain" "chain \<in> set (table m)" "key e = k"
    by (auto simp: entries_def)
  from e(2) obtain j where j: "j < length (table m)" "table m ! j = chain"
    by (auto simp: in_set_conv_nth)
  with assms(1) e have "bucket m k = Inr j" by (auto simp: placed_def)
  with assms(2) j e show "k \<in> key ` set (table m ! i)" by auto
next
  assume "k \<in> key ` set (table m ! i)"
  moreover from bucket_bound [OF assms(2)] have "table m ! i \<in> set (table m)" by simp
  ultimately show "k \<in> key ` set (entries m)" by (auto simp: entries_def)
qed

lemma distinct_concat_offset:
  "(\<forall>c \<in> set t. distinct c) \<Longrightarrow>
   (\<forall>i < length t. \<forall>x \<in> set (t ! i). g x = i + off) \<Longrightarrow> distinct (concat t)"
proof (induction t arbitrary: off)
  case Nil
  then show ?case by simp
next
  case (Cons c t)
  from Cons.prems(2) have h: "\<forall>x \<in> set c. g x = off" by force
  from Cons.prems(2) have r: "\<forall>i < length t. \<forall>x \<in> set (t ! i). g x = i + Suc off" by force
  from Cons.IH [OF _ r] Cons.prems(1) have "distinct (concat t)" by simp
  moreover have "set c \<inter> set (concat t) = {}"
  proof (rule ccontr)
    assume "set c \<inter> set (concat t) \<noteq> {}"
    then obtain x d where x: "x \<in> set c" "x \<in> set d" "d \<in> set t" by auto
    from x(3) obtain j where "j < length t" "t ! j = d" by (auto simp: in_set_conv_nth)
    with r x(2) have "g x = j + Suc off" by auto
    with h x(1) show False by auto
  qed
  ultimately show ?case using Cons.prems(1) by simp
qed

lemma consistent_distinct:
  assumes "placed m" and "chains_distinct m"
  shows "distinct (map key (entries m))"
proof -
  let ?g = "\<lambda>k. case bucket m k of Inl f \<Rightarrow> 0 | Inr i \<Rightarrow> i"
  have "distinct (concat (map (map key) (table m)))"
  proof (rule distinct_concat_offset [where g = ?g and off = 0])
    show "\<forall>c \<in> set (map (map key) (table m)). distinct c"
      using assms(2) by (auto simp: chains_distinct_def)
    show "\<forall>i < length (map (map key) (table m)).
        \<forall>x \<in> set (map (map key) (table m) ! i). ?g x = i + 0"
      using assms(1) by (auto simp: placed_def)
  qed
  then show ?thesis by (simp add: entries_def map_concat)
qed

lemma consistent_update:
  assumes "consistent m" and "i < length (table m)"
    and "\<forall>e \<in> set c. bucket m (key e) = Inr i" and "distinct (map key c)"
    and "sint s + int (length (table m ! i)) = sint (size_m m) + int (length c)"
  shows "consistent (finished i (m\<lparr>table := (table m)[i := c], size_m := s\<rparr>))"
proof -
  let ?m = "finished i (m\<lparr>table := (table m)[i := c], size_m := s\<rparr>)"
  from assms(1) have "ready ?m" by (simp add: consistent_def)
  moreover have "placed ?m"
    using assms(1,2,3) by (auto simp: consistent_def placed_def nth_list_update)
  moreover have "chains_distinct ?m"
    using assms(1,4) set_update_subset_insert [of "table m" i c]
    by (auto simp: consistent_def chains_distinct_def)
  moreover have "counted ?m"
    using assms(1,5) length_concat_update [OF assms(2), of c]
    by (simp add: consistent_def counted_def entries_def)
  ultimately show ?thesis by (simp add: consistent_def)
qed

lemma consistent_finished: "consistent (finished i m) = consistent m"
  by (simp add: consistent_def placed_def chains_distinct_def counted_def entries_def)

lemma consistent_initmap: "consistent (initmap cap)"
  by (simp add: consistent_def ready_def shaped_def placed_def chains_distinct_def
      counted_def entries_def initmap_def)

section \<open>Calls on the mapping\<close>

lemma pairs_absent: "k \<notin> key ` set chain \<Longrightarrow> map_of (pairs chain) k = None"
  by (induction chain) (auto simp: pairs_def)

lemma pairs_split:
  "map_of (pairs (pre @ e # post)) k =
     (if k \<in> key ` set pre then map_of (pairs pre) k
      else if key e = k then Some (val e) else map_of (pairs post) k)"
  by (induction pre) (auto simp: pairs_def)

lemma pairs_Cons:
  "map_of (pairs (e # post)) k = (if key e = k then Some (val e) else map_of (pairs post) k)"
  by (auto simp: pairs_def)

lemma pairs_Nil: "map_of (pairs []) k = None"
  by (simp add: pairs_def)

lemma pairs_append:
  "map_of (pairs (pre @ post)) k =
     (if k \<in> key ` set pre then map_of (pairs pre) k else map_of (pairs post) k)"
  by (induction pre) (auto simp: pairs_def)

lemma lookup_finished [simp]: "lookup (finished i m) = lookup m"
  by (simp add: lookup_def fun_eq_iff split: sum.splits)

lemma put_step:
  assumes "consistent m" and "put m k v = Inr ((r, how), m')"
  shows "consistent m' \<and> lookup m' = (lookup m)(k \<mapsto> v) \<and>
         r = (case lookup m k of None \<Rightarrow> INT_MAX | Some x \<Rightarrow> x)"
proof -
  from assms(1) have rd: "ready m" by (simp add: consistent_def)
  from put_cases [OF rd assms(2)] obtain i where b: "bucket m k = Inr i"
    and c: "(\<exists>pre e post. table m ! i = pre @ e # post \<and> key e = k \<and> k \<notin> key ` set pre \<and>
        r = val e \<and>
        m' = finished i (m\<lparr>table := (table m)[i := pre @ e\<lparr>val := v\<rparr> # post],
                            size_m := size_m m\<rparr>))
     \<or> (k \<notin> key ` set (table m ! i) \<and> size_m m \<noteq> INT_MAX \<and> r = INT_MAX \<and>
        m' = finished i (m\<lparr>table := (table m)[i := table m ! i @ [\<lparr>key = k, val = v\<rparr>]],
                            size_m := size_m m + 1\<rparr>))"
    by blast
  note i = bucket_bound [OF b]
  from assms(1) i have pl: "\<forall>e \<in> set (table m ! i). bucket m (key e) = Inr i"
    and di: "distinct (map key (table m ! i))"
    by (auto simp: consistent_def placed_def chains_distinct_def)
  from c show ?thesis
  proof (elim disjE exE conjE)
    fix pre e post
    assume d: "table m ! i = pre @ e # post" "key e = k" "k \<notin> key ` set pre" "r = val e"
      and m': "m' = finished i (m\<lparr>table := (table m)[i := pre @ e\<lparr>val := v\<rparr> # post],
                            size_m := size_m m\<rparr>)"
    have "consistent m'" unfolding m'
      using pl di d by (intro consistent_update [OF assms(1) i]) auto
    moreover have "lookup m' = (lookup m)(k \<mapsto> v)"
      unfolding m' using b d(1,2,3) i
      by (auto simp: fun_eq_iff lookup_def pairs_split nth_list_update split: sum.splits)
    moreover have "r = (case lookup m k of None \<Rightarrow> INT_MAX | Some x \<Rightarrow> x)"
      using b d by (simp add: lookup_def pairs_split)
    ultimately show ?thesis by simp
  next
    assume a: "k \<notin> key ` set (table m ! i)" "size_m m \<noteq> INT_MAX" "r = INT_MAX"
      and m': "m' = finished i (m\<lparr>table := (table m)[i := table m ! i @ [\<lparr>key = k, val = v\<rparr>]],
                            size_m := size_m m + 1\<rparr>)"
    have "consistent m'" unfolding m'
      using pl di a b by (intro consistent_update [OF assms(1) i]) (auto simp: sint_incr)
    moreover have "lookup m' = (lookup m)(k \<mapsto> v)"
      unfolding m' using b a(1) i
      by (auto simp: fun_eq_iff lookup_def pairs_split pairs_absent pairs_Nil nth_list_update
          split: sum.splits)
    moreover have "r = (case lookup m k of None \<Rightarrow> INT_MAX | Some x \<Rightarrow> x)"
      using b a by (simp add: lookup_def pairs_absent)
    ultimately show ?thesis by simp
  qed
qed

lemma del_step:
  assumes "consistent m" and "del m k = Inr (r, m')"
  shows "consistent m' \<and> lookup m' = (lookup m)(k := None) \<and>
         r = (case lookup m k of None \<Rightarrow> INT_MAX | Some x \<Rightarrow> x)"
proof -
  from assms(1) have rd: "ready m" by (simp add: consistent_def)
  from del_cases [OF rd assms(2)] obtain i where b: "bucket m k = Inr i"
    and c: "(k \<notin> key ` set (table m ! i) \<and> r = INT_MAX \<and> m' = finished i m)
     \<or> (\<exists>pre e post. table m ! i = pre @ e # post \<and> key e = k \<and> k \<notin> key ` set pre \<and>
        size_m m \<noteq> INT_MIN \<and> r = val e \<and>
        m' = finished i (m\<lparr>table := (table m)[i := pre @ post], size_m := size_m m - 1\<rparr>))"
    by blast
  note i = bucket_bound [OF b]
  from assms(1) i have pl: "\<forall>e \<in> set (table m ! i). bucket m (key e) = Inr i"
    and di: "distinct (map key (table m ! i))"
    by (auto simp: consistent_def placed_def chains_distinct_def)
  from c show ?thesis
  proof (elim disjE exE conjE)
    assume a: "k \<notin> key ` set (table m ! i)" "r = INT_MAX" "m' = finished i m"
    have "lookup m k = None" using b a(1) by (simp add: lookup_def pairs_absent)
    then have "(lookup m)(k := None) = lookup m" by (simp add: fun_eq_iff)
    with a assms(1) \<open>lookup m k = None\<close> show ?thesis by (simp add: consistent_finished)
  next
    fix pre e post
    assume d: "table m ! i = pre @ e # post" "key e = k" "k \<notin> key ` set pre"
      "size_m m \<noteq> INT_MIN" "r = val e"
      and m': "m' = finished i (m\<lparr>table := (table m)[i := pre @ post], size_m := size_m m - 1\<rparr>)"
    from di d(1,2) have np: "k \<notin> key ` set post" by auto
    have "consistent m'" unfolding m'
      using pl di d by (intro consistent_update [OF assms(1) i]) (auto simp: sint_decr)
    moreover have "lookup m' = (lookup m)(k := None)"
      unfolding m' using b d(1,2,3) np i
      by (auto simp: fun_eq_iff lookup_def pairs_split pairs_append pairs_absent pairs_Cons
          nth_list_update split: sum.splits)
    moreover have "r = (case lookup m k of None \<Rightarrow> INT_MAX | Some x \<Rightarrow> x)"
      using b d by (simp add: lookup_def pairs_split)
    ultimately show ?thesis by simp
  qed
qed

lemma get_step:
  assumes "consistent m" and "get m k = Inr (r, m')"
  shows "consistent m' \<and> lookup m' = lookup m \<and>
         r = (case lookup m k of None \<Rightarrow> INT_MAX | Some x \<Rightarrow> x)"
proof -
  from assms(1) have rd: "ready m" by (simp add: consistent_def)
  from get_cases [OF rd assms(2)] obtain i where b: "bucket m k = Inr i"
    and m': "m' = finished i m"
    and c: "(\<exists>pre e post. table m ! i = pre @ e # post \<and> key e = k \<and> k \<notin> key ` set pre \<and>
        r = val e) \<or> (k \<notin> key ` set (table m ! i) \<and> r = INT_MAX)"
    by blast
  from c b have "r = (case lookup m k of None \<Rightarrow> INT_MAX | Some x \<Rightarrow> x)"
    by (auto simp: lookup_def pairs_split pairs_absent)
  with m' assms(1) show ?thesis by (simp add: consistent_finished)
qed

lemma apply_call_step:
  assumes "consistent m" and "apply_call m c = Inr (r, m')"
  shows "consistent m' \<and> lookup m' = effect c (lookup m) \<and> r = answer c (lookup m)"
proof (cases c)
  case (Get k)
  with get_step [OF assms(1), of k r m'] assms(2) show ?thesis by (simp add: answer_def)
next
  case (Put k v)
  with assms(2) obtain how where "put m k v = Inr ((r, how), m')"
    by (auto simp: and_then_Inr_iff)
  from put_step [OF assms(1) this] Put show ?thesis by (simp add: answer_def)
next
  case (Del k)
  with del_step [OF assms(1), of k r m'] assms(2) show ?thesis by (simp add: answer_def)
qed

lemma run_Cons_Inr:
  "run m (c # cs) = Inr (rs, m'') \<longleftrightarrow>
   (\<exists>r m' rs'. apply_call m c = Inr (r, m') \<and> run m' cs = Inr (rs', m'') \<and> rs = r # rs')"
  by (auto simp: and_then_Inr_iff)

lemma run_append_Inr:
  "run m (cs @ ds) = Inr (rs, m'') \<longleftrightarrow>
   (\<exists>rs1 m' rs2. run m cs = Inr (rs1, m') \<and> run m' ds = Inr (rs2, m'') \<and> rs = rs1 @ rs2)"
proof (induction cs arbitrary: m rs)
  case Nil
  then show ?case by simp
next
  case (Cons c cs)
  show ?case
    unfolding append_Cons run_Cons_Inr Cons.IH by (auto; blast)
qed

lemma run_consistent:
  "consistent m \<Longrightarrow> run m cs = Inr (rs, m') \<Longrightarrow> consistent m'"
proof (induction cs arbitrary: m rs)
  case Nil
  then show ?case by simp
next
  case (Cons c cs)
  from Cons.prems(2) obtain r m1 rs' where
    s: "apply_call m c = Inr (r, m1)" "run m1 cs = Inr (rs', m')"
    unfolding run_Cons_Inr by blast
  from apply_call_step [OF Cons.prems(1) s(1)] Cons.IH [OF _ s(2)] show ?case by simp
qed

lemma run_untouched:
  "consistent m \<Longrightarrow> run m cs = Inr (rs, m') \<Longrightarrow> \<forall>c \<in> set cs. \<not> writes k c \<Longrightarrow>
   lookup m' k = lookup m k"
proof (induction cs arbitrary: m rs)
  case Nil
  then show ?case by simp
next
  case (Cons c cs)
  from Cons.prems(2) obtain r m1 rs' where
    s: "apply_call m c = Inr (r, m1)" "run m1 cs = Inr (rs', m')"
    unfolding run_Cons_Inr by blast
  from apply_call_step [OF Cons.prems(1) s(1)]
  have c1: "consistent m1" and l: "lookup m1 = effect c (lookup m)" by simp_all
  from Cons.prems(3) have "\<not> writes k c" by simp
  with l have "lookup m1 k = lookup m k" by (cases c) auto
  with Cons.IH [OF c1 s(2)] Cons.prems(3) show ?case by simp
qed

section \<open>Which calls return\<close>

lemma c_rem_positive:
  assumes "0 < sint cap"
  shows "c_rem k cap = Inr (word_of_int (sint k smod sint cap)) \<and>
         sint (word_of_int (sint k smod sint cap) :: c_int) = sint k smod sint cap"
proof -
  from assms have "cap \<noteq> 0" "cap \<noteq> - 1" by auto
  then have "c_rem k cap = Inr (word_of_int (sint k smod sint cap))" by (simp add: c_rem_def)
  moreover from smod_bounds [OF assms, of "sint k"] sint_range [of cap]
  have "- 2147483648 \<le> sint k smod sint cap" "sint k smod sint cap \<le> 2147483647" by auto
  then have "sint (word_of_int (sint k smod sint cap) :: c_int) = sint k smod sint cap"
    by (rule sint_of_int_small)
  ultimately show ?thesis by simp
qed

lemma bucket_nonneg:
  assumes "shaped m" and "0 < sint (capacity m)" and "0 \<le> sint k"
  shows "\<exists>i. bucket m k = Inr i"
proof -
  let ?r = "sint k smod sint (capacity m)"
  from c_rem_positive [OF assms(2), of k]
  have c: "c_rem k (capacity m) = Inr (word_of_int ?r)" "sint (word_of_int ?r :: c_int) = ?r"
    by simp_all
  from smod_bounds [OF assms(2), of "sint k"] assms(3)
  have "0 \<le> ?r" "?r < sint (capacity m)" by auto
  with assms(1) c show ?thesis by (simp add: bucket_def slot_def shaped_def)
qed

lemma apply_call_frame:
  assumes "ready m" and "apply_call m c = Inr (r, m')"
  shows "numOps m \<noteq> INT_MAX \<and> numOps m' = numOps m + 1 \<and> capacity m' = capacity m \<and>
         lock m' = lock m \<and> length (table m') = length (table m) \<and>
         sint (size_m m') \<le> sint (size_m m) + 1 \<and>
         (\<exists>i. bucket m (key_of c) = Inr i \<and>
              lock_log m' = lock_log m @ [Acquire i, Release i])"
proof (cases c)
  case (Get k)
  with assms(2) have "get m k = Inr (r, m')" by simp
  from get_cases [OF assms(1) this] Get show ?thesis by auto
next
  case (Put k v)
  with assms(2) obtain how where "put m k v = Inr ((r, how), m')"
    by (auto simp: and_then_Inr_iff)
  from put_cases [OF assms(1) this] Put show ?thesis by (auto simp: sint_incr)
next
  case (Del k)
  with assms(2) have "del m k = Inr (r, m')" by simp
  from del_cases [OF assms(1) this] Del show ?thesis by (auto simp: sint_decr)
qed

lemma call_returns_ready:
  assumes "ready m" and "bucket m (key_of c) = Inr i"
    and "numOps m \<noteq> INT_MAX" and "size_m m \<noteq> INT_MAX" and "size_m m \<noteq> INT_MIN"
  shows "\<exists>r m'. apply_call m c = Inr (r, m')"
proof (cases "key_of c \<in> key ` set (table m ! i)")
  case False
  show ?thesis
  proof (cases c)
    case (Get k)
    with get_absent [OF assms(1) _ assms(3), of k i] assms(2) False show ?thesis by simp
  next
    case (Put k v)
    show ?thesis
    proof (cases "table m ! i = []")
      case True
      with put_empty [OF assms(1) _ assms(3) _ assms(4), of k i v] assms(2) Put
      show ?thesis by simp
    next
      case filled: False
      with put_append [OF assms(1) _ assms(3) _ _ assms(4), of k i v] assms(2) Put False
      show ?thesis by simp
    qed
  next
    case (Del k)
    with del_absent [OF assms(1) _ assms(3), of k i] assms(2) False show ?thesis by simp
  qed
next
  case True
  from first_match [OF this] obtain pre e post where
    d: "table m ! i = pre @ e # post" "key e = key_of c" "key_of c \<notin> key ` set pre"
    by blast
  show ?thesis
  proof (cases c)
    case (Get k)
    with get_present [OF assms(1) _ assms(3), of k i pre e post] assms(2) d
    show ?thesis by simp
  next
    case (Put k v)
    with put_replace [OF assms(1) _ assms(3), of k i pre e post v] assms(2) d
    show ?thesis by simp
  next
    case (Del k)
    show ?thesis
    proof (cases "pre = []")
      case True
      with del_head [OF assms(1) _ assms(3) _ _ assms(5), of k i e post] assms(2) d Del
      show ?thesis by simp
    next
      case False
      with del_inner [OF assms(1) _ assms(3) _ _ _ _ assms(5), of k i pre e post]
        assms(2) d Del
      show ?thesis by simp
    qed
  qed
qed

lemma apply_call_returns:
  assumes "consistent m" and "0 < sint (capacity m)" and "0 \<le> sint (key_of c)"
    and "numOps m \<noteq> INT_MAX" and "size_m m \<noteq> INT_MAX"
  shows "\<exists>r m'. apply_call m c = Inr (r, m')"
proof -
  from assms(1) have rd: "ready m" and cn: "counted m" by (simp_all add: consistent_def)
  from rd have "shaped m" by (simp add: ready_def)
  from bucket_nonneg [OF this assms(2,3)] obtain i where b: "bucket m (key_of c) = Inr i" ..
  from cn have "0 \<le> sint (size_m m)" by (simp add: counted_def)
  then have "size_m m \<noteq> INT_MIN" using sint_INT_MIN by auto
  from call_returns_ready [OF rd b assms(4,5) this] show ?thesis .
qed

lemma run_returns:
  "consistent m \<Longrightarrow> 0 < sint (capacity m) \<Longrightarrow> \<forall>c \<in> set cs. 0 \<le> sint (key_of c) \<Longrightarrow>
   sint (numOps m) + int (length cs) \<le> 2147483647 \<Longrightarrow> sint (size_m m) \<le> sint (numOps m) \<Longrightarrow>
   \<exists>rs m'. run m cs = Inr (rs, m')"
proof (induction cs arbitrary: m)
  case Nil
  then show ?case by simp
next
  case (Cons c cs)
  from Cons.prems(4) have "sint (numOps m) \<noteq> 2147483647" by simp
  then have n: "numOps m \<noteq> INT_MAX" using sint_INT_MAX by auto
  from Cons.prems(4,5) have "sint (size_m m) \<noteq> 2147483647" by simp
  then have s: "size_m m \<noteq> INT_MAX" using sint_INT_MAX by auto
  from apply_call_returns [OF Cons.prems(1,2) _ n s, of c] Cons.prems(3)
  obtain r m1 where a: "apply_call m c = Inr (r, m1)" by auto
  from Cons.prems(1) have rd: "ready m" by (simp add: consistent_def)
  from apply_call_step [OF Cons.prems(1) a] have c1: "consistent m1" by simp
  from apply_call_frame [OF rd a] have f: "numOps m1 = numOps m + 1"
    "capacity m1 = capacity m" "sint (size_m m1) \<le> sint (size_m m) + 1" by simp_all
  from f(1) n have n1: "sint (numOps m1) = sint (numOps m) + 1" by (simp add: sint_incr)
  have "\<exists>rs m'. run m1 cs = Inr (rs, m')"
    using c1 f n1 Cons.prems by (intro Cons.IH) auto
  with a show ?case by auto
qed

lemma run_initmap_returns:
  assumes "0 < sint cap" and "\<forall>c \<in> set cs. 0 \<le> sint (key_of c)"
    and "length cs \<le> 2147483647"
  shows "\<exists>rs m. run (initmap cap) cs = Inr (rs, m)"
  using assms by (intro run_returns consistent_initmap) (simp_all add: initmap_def)

section \<open>Runs from a fresh map\<close>

lemma filter_key_le_1:
  "distinct (map f xs) \<Longrightarrow> length (filter (\<lambda>e. f e = k) xs) \<le> 1"
proof (induction xs)
  case Nil
  then show ?case by simp
next
  case (Cons x xs)
  show ?case
  proof (cases "f x = k")
    case True
    with Cons.prems have "\<forall>e \<in> set xs. f e \<noteq> k" by (metis distinct.simps(2) image_eqI list.simps(9) set_map)
    then have "filter (\<lambda>e. f e = k) xs = []" by (simp add: filter_empty_conv)
    with True show ?thesis by simp
  next
    case False
    with Cons show ?thesis by simp
  qed
qed

lemma reachable_consistent: "run (initmap cap) cs = Inr (rs, m) \<Longrightarrow> consistent m"
  by (rule run_consistent [OF consistent_initmap])

lemma run_last_call:
  assumes "consistent m" and "run m (cs @ [c]) = Inr (rs, m')"
  shows "\<exists>rs1 m1. run m cs = Inr (rs1, m1) \<and> consistent m1 \<and> last rs = answer c (lookup m1)"
proof -
  from assms(2) obtain rs1 m1 rs2 where r: "run m cs = Inr (rs1, m1)"
    "run m1 [c] = Inr (rs2, m')" "rs = rs1 @ rs2"
    unfolding run_append_Inr by blast
  from r(2) obtain x where x: "apply_call m1 c = Inr (x, m')" "rs2 = [x]"
    unfolding run_Cons_Inr by auto
  from run_consistent [OF assms(1) r(1)] have c1: "consistent m1" .
  from apply_call_step [OF c1 x(1)] r(3) x(2) have "last rs = answer c (lookup m1)" by simp
  with r(1) c1 show ?thesis by blast
qed

lemma run_write_then_untouched:
  assumes "consistent m" and "run m (w # cs) = Inr (rs, m')"
    and "\<forall>c \<in> set cs. \<not> writes k c"
  shows "lookup m' k = effect w (lookup m) k"
proof -
  from assms(2) obtain r m1 rs' where
    s: "apply_call m w = Inr (r, m1)" "run m1 cs = Inr (rs', m')"
    unfolding run_Cons_Inr by blast
  from apply_call_step [OF assms(1) s(1)] run_untouched [OF _ s(2) assms(3)]
  show ?thesis by simp
qed

lemma run_write_then_call:
  assumes "run (initmap cap) (before @ w # between @ [c]) = Inr (rs, m)"
    and "\<forall>c \<in> set between. \<not> writes k c" and "key_of c = k"
  shows "\<exists>m0 rs0. run (initmap cap) before = Inr (rs0, m0) \<and>
           last rs = (case effect w (lookup m0) k of None \<Rightarrow> INT_MAX | Some x \<Rightarrow> x)"
proof -
  from assms(1) [unfolded run_append_Inr] obtain rs0 m0 rs1 where
    r: "run (initmap cap) before = Inr (rs0, m0)"
    "run m0 (w # between @ [c]) = Inr (rs1, m)" "rs = rs0 @ rs1"
    by blast
  from r(2) have r2: "run m0 ((w # between) @ [c]) = Inr (rs1, m)" by simp
  from reachable_consistent [OF r(1)] have c0: "consistent m0" .
  from run_last_call [OF c0 r2] obtain rs2 m2 where
    l: "run m0 (w # between) = Inr (rs2, m2)" "last rs1 = answer c (lookup m2)" by blast
  from r2 have "rs1 \<noteq> []"
    by (auto simp: run_append_Inr run_Cons_Inr simp del: run.simps)
  with r(3) have "last rs = last rs1" by simp
  with l(2) run_write_then_untouched [OF c0 l(1) assms(2)] assms(3) r(1)
  show ?thesis by (auto simp: answer_def)
qed

lemma run_unstored:
  "consistent m \<Longrightarrow> run m cs = Inr (rs, m') \<Longrightarrow> \<forall>c \<in> set cs. \<not> stores k c \<Longrightarrow>
   lookup m k = None \<Longrightarrow> lookup m' k = None"
proof (induction cs arbitrary: m rs)
  case Nil
  then show ?case by simp
next
  case (Cons c cs)
  from Cons.prems(2) obtain r m1 rs' where
    s: "apply_call m c = Inr (r, m1)" "run m1 cs = Inr (rs', m')"
    unfolding run_Cons_Inr by blast
  from apply_call_step [OF Cons.prems(1) s(1)]
  have c1: "consistent m1" and l: "lookup m1 = effect c (lookup m)" by simp_all
  from Cons.prems(3) have "\<not> stores k c" by simp
  with l Cons.prems(4) have "lookup m1 k = None" by (cases c) auto
  with Cons.IH [OF c1 s(2)] Cons.prems(3) show ?case by simp
qed

lemma run_del_then_get:
  assumes "run (initmap cap) (before @ Del k # between @ [Get k]) = Inr (rs, m)"
    and "\<forall>c \<in> set between. \<not> stores k c"
  shows "last rs = INT_MAX"
proof -
  from assms(1) [unfolded run_append_Inr] obtain rs0 m0 rs1 where
    r: "run (initmap cap) before = Inr (rs0, m0)"
    "run m0 (Del k # between @ [Get k]) = Inr (rs1, m)" "rs = rs0 @ rs1"
    by blast
  from r(2) have r2: "run m0 ((Del k # between) @ [Get k]) = Inr (rs1, m)" by simp
  from reachable_consistent [OF r(1)] have c0: "consistent m0" .
  from run_last_call [OF c0 r2] obtain rs2 m2 where
    l: "run m0 (Del k # between) = Inr (rs2, m2)" "last rs1 = answer (Get k) (lookup m2)"
    by blast
  from l(1) obtain x m1 rs3 where
    d: "apply_call m0 (Del k) = Inr (x, m1)" "run m1 between = Inr (rs3, m2)"
    unfolding run_Cons_Inr by blast
  from apply_call_step [OF c0 d(1)] have c1: "consistent m1" and "lookup m1 k = None"
    by simp_all
  from run_unstored [OF c1 d(2) assms(2) this(2)] have "lookup m2 k = None" .
  with l(2) have "last rs1 = INT_MAX" by (simp add: answer_def)
  moreover from r2 have "rs1 \<noteq> []"
    by (auto simp: run_append_Inr run_Cons_Inr simp del: run.simps)
  ultimately show ?thesis using r(3) by simp
qed

section \<open>Subscripts out of bounds\<close>

lemma slot_negative: "sint index < 0 \<Longrightarrow> slot index xs = Inl Out_of_bounds"
  by (simp add: slot_def)

lemma put_loop_faults:
  "put_loop k v i seen chain m = Inl f \<Longrightarrow> f = Signed_overflow"
proof (induction chain arbitrary: seen)
  case Nil
  then show ?case by simp
next
  case (Cons c chain)
  then show ?case
    by (cases "incr (size_m m)") (auto simp: incr_def split: if_splits)
qed

lemma get_in_bounds:
  assumes "bucket m k = Inr i" and "length (lock m) = length (table m)"
  shows "get m k \<noteq> Inl Out_of_bounds"
  using assms
  by (auto simp: get_def bucket_def incr_def mutex_lock_def slot_def and_then_Inr_iff
      split: if_splits)

lemma put_in_bounds:
  assumes "bucket m k = Inr i" and "length (lock m) = length (table m)"
  shows "put m k v \<noteq> Inl Out_of_bounds"
proof
  assume p: "put m k v = Inl Out_of_bounds"
  from assms obtain index where c: "c_rem k (capacity m) = Inr index"
    and s: "slot index (table m) = Inr i" "slot index (lock m) = Inr i"
    by (auto simp: bucket_def slot_def and_then_Inr_iff split: if_splits)
  show False
  proof (cases "numOps m = INT_MAX \<or> lock m ! i")
    case True
    with p c s show False by (auto simp: put_def incr_def mutex_lock_def split: if_splits)
  next
    case False
    then have "mutex_lock index (m\<lparr>numOps := numOps m + 1\<rparr>) = Inr (entered i m)"
      using s by (simp add: mutex_lock_def entered_def)
    with False c s have "put m k v =
      (if table m ! i = [] then
         and_then (incr (size_m m)) (\<lambda>s.
           Inr ((INT_MAX, Installed_as_head),
                mutex_unlock i
                  (entered i m\<lparr>table := (table m)[i := [\<lparr>key = k, val = v\<rparr>]], size_m := s\<rparr>)))
       else put_loop k v i [] (table m ! i) (entered i m))"
      by (simp add: put_def incr_Inr)
    with p show False
      by (cases "table m ! i = []"; cases "incr (size_m m)")
        (auto simp: incr_def dest: put_loop_faults split: if_splits)
  qed
qed

lemma del_in_bounds:
  assumes "bucket m k = Inr i" and "length (lock m) = length (table m)"
  shows "del m k \<noteq> Inl Out_of_bounds"
  using assms
  by (auto simp: del_def bucket_def incr_def decr_def mutex_lock_def slot_def and_then_Inr_iff
      split: if_splits list.splits prod.splits)

section \<open>Calls while other mutexes are held\<close>

text \<open>
  A call only looks at the mutex of its own bucket.  What it does on a map where other
  mutexes are held is what it does on the same map with all mutexes free, with the
  other mutexes left as they are.
\<close>

lemma get_loop_relock:
  "get_loop k i chain (m\<lparr>lock := l\<rparr>) =
     (fst (get_loop k i chain m), snd (get_loop k i chain m)\<lparr>lock := l[i := False]\<rparr>)"
  by (induction chain) (simp_all add: mutex_unlock_def)

lemma put_loop_relock:
  "put_loop k v i seen chain (m\<lparr>lock := l\<rparr>) =
     and_then (put_loop k v i seen chain m) (\<lambda>(x, m'). Inr (x, m'\<lparr>lock := l[i := False]\<rparr>))"
proof (induction chain arbitrary: seen)
  case Nil
  then show ?case by (simp add: mutex_unlock_def)
next
  case (Cons c chain)
  then show ?case
    by (cases "incr (size_m m)") (simp_all add: mutex_unlock_def)
qed

lemma bucket_slots:
  assumes "shaped m" and "bucket m k = Inr i"
  shows "\<exists>index. c_rem k (capacity m) = Inr index \<and> slot index (table m) = Inr i \<and>
           slot index (lock m) = Inr i \<and> i < length (lock m)"
proof -
  from assms(2) obtain index where c: "c_rem k (capacity m) = Inr index"
    and s: "slot index (table m) = Inr i"
    by (auto simp: bucket_def and_then_Inr_iff)
  from s have "0 \<le> sint index" "nat (sint index) = i" "i < length (table m)"
    by (auto simp: slot_def split: if_splits)
  with assms(1) have "slot index (lock m) = Inr i" "i < length (lock m)"
    by (simp_all add: slot_def shaped_def)
  with c s show ?thesis by blast
qed

lemma call_blocked:
  assumes "shaped m" and "bucket m (key_of c) = Inr i" and "lock m ! i"
    and "numOps m \<noteq> INT_MAX"
  shows "apply_call m c = Inl Relock"
proof -
  from bucket_slots [OF assms(1,2)] obtain index where
    "c_rem (key_of c) (capacity m) = Inr index" "slot index (lock m) = Inr i" by blast
  with assms(3,4) show ?thesis
    by (cases c) (simp_all add: get_def put_def del_def incr_Inr mutex_lock_def)
qed

lemma call_relock:
  assumes "shaped m" and "bucket m (key_of c) = Inr i" and "\<not> lock m ! i"
  shows "apply_call m c =
     and_then (apply_call (m\<lparr>lock := replicate (length (lock m)) False\<rparr>) c)
       (\<lambda>(r, m'). Inr (r, m'\<lparr>lock := lock m\<rparr>))"
proof (cases "numOps m = INT_MAX")
  case True
  then show ?thesis
    by (cases c) (simp_all add: get_def put_def del_def incr_def)
next
  case False
  define m0 where "m0 = m\<lparr>lock := replicate (length (lock m)) False\<rparr>"
  define E0 where "E0 = entered i m0"
  define E where "E = E0\<lparr>lock := (lock m)[i := True]\<rparr>"
  from bucket_slots [OF assms(1,2)] obtain index where
    c: "c_rem (key_of c) (capacity m) = Inr index" and s: "slot index (table m) = Inr i"
    and sl: "slot index (lock m) = Inr i" and i: "i < length (lock m)" by blast
  from sl have sl0: "slot index (lock m0) = Inr i"
    by (simp add: slot_def m0_def split: if_splits)
  have undo: "(lock m)[i := True, i := False] = lock m"
    using assms(3) list_update_id [of "lock m" i] by simp
  have l: "mutex_lock index (m\<lparr>numOps := numOps m + 1\<rparr>) = Inr E"
    using sl assms(3) by (simp add: mutex_lock_def E_def E0_def entered_def m0_def)
  have l0: "mutex_lock index (m0\<lparr>numOps := numOps m0 + 1\<rparr>) = Inr E0"
    using sl0 i by (simp add: mutex_lock_def E0_def entered_def m0_def)
  have f: "table E = table m" "table E0 = table m" "size_m E = size_m m" "size_m E0 = size_m m"
    "table m0 = table m" "capacity m0 = capacity m" "numOps m0 = numOps m"
    "size_m m0 = size_m m"
    by (simp_all add: E_def E0_def m0_def)
  have u: "mutex_unlock i (E\<lparr>table := t, size_m := z\<rparr>) =
      (mutex_unlock i (E0\<lparr>table := t, size_m := z\<rparr>))\<lparr>lock := lock m\<rparr>" for t z
    using undo by (simp add: E_def mutex_unlock_def)
  have u': "mutex_unlock i (E\<lparr>size_m := z, table := t\<rparr>) =
      (mutex_unlock i (E0\<lparr>size_m := z, table := t\<rparr>))\<lparr>lock := lock m\<rparr>" for t z
    using undo by (simp add: E_def mutex_unlock_def)
  have u0: "mutex_unlock i E = (mutex_unlock i E0)\<lparr>lock := lock m\<rparr>"
    using undo by (simp add: E_def mutex_unlock_def)
  show ?thesis
  proof (cases c)
    case (Get k)
    have "get m k = Inr (get_loop k i (table m ! i) E)"
      using c s l False Get by (simp add: get_def incr_Inr f)
    moreover have "get m0 k = Inr (get_loop k i (table m ! i) E0)"
      using c s l0 False Get by (simp add: get_def incr_Inr f)
    moreover have "get_loop k i (table m ! i) E =
        (fst (get_loop k i (table m ! i) E0), snd (get_loop k i (table m ! i) E0)\<lparr>lock := lock m\<rparr>)"
      using get_loop_relock [where k = k and i = i and chain = "table m ! i" and m = E0
          and l = "(lock m)[i := True]"] undo
      by (simp add: E_def)
    ultimately show ?thesis using Get by (simp add: m0_def [symmetric] split: prod.splits)
  next
    case (Put k v)
    have "put m k v =
       (if table m ! i = [] then
         and_then (incr (size_m m)) (\<lambda>z.
           Inr ((INT_MAX, Installed_as_head),
                mutex_unlock i (E\<lparr>table := (table m)[i := [\<lparr>key = k, val = v\<rparr>]], size_m := z\<rparr>)))
       else put_loop k v i [] (table m ! i) E)"
      using c s l False Put by (simp add: put_def incr_Inr f)
    moreover have "put m0 k v =
       (if table m ! i = [] then
         and_then (incr (size_m m)) (\<lambda>z.
           Inr ((INT_MAX, Installed_as_head),
                mutex_unlock i (E0\<lparr>table := (table m)[i := [\<lparr>key = k, val = v\<rparr>]], size_m := z\<rparr>)))
       else put_loop k v i [] (table m ! i) E0)"
      using c s l0 False Put by (simp add: put_def incr_Inr f)
    moreover have "put_loop k v i [] (table m ! i) E =
        and_then (put_loop k v i [] (table m ! i) E0) (\<lambda>(x, m'). Inr (x, m'\<lparr>lock := lock m\<rparr>))"
      using put_loop_relock [where k = k and v = v and i = i and seen = "[]"
          and chain = "table m ! i" and m = E0 and l = "(lock m)[i := True]"] undo
      by (simp add: E_def)
    ultimately show ?thesis using Put
      by (cases "incr (size_m m)"; cases "put_loop k v i [] (table m ! i) E0")
        (auto simp: m0_def [symmetric] u split: prod.splits)
  next
    case (Del k)
    have "del m k =
     (case table m ! i of
         [] \<Rightarrow> Inr (INT_MAX, mutex_unlock i E)
       | entry # rest \<Rightarrow>
           if key entry = k then
             and_then (decr (size_m m)) (\<lambda>z.
               Inr (val entry,
                    mutex_unlock i (E\<lparr>size_m := z, table := (table m)[i := rest]\<rparr>)))
           else
             (case del_loop k [] (entry # rest) of
                (prev, []) \<Rightarrow> Inr (INT_MAX, mutex_unlock i E)
              | (prev, hit # after) \<Rightarrow>
                  if prev = [] then Inl Null_dereference
                  else
                    and_then (decr (size_m m)) (\<lambda>z.
                      Inr (val hit,
                           mutex_unlock i
                             (E\<lparr>table := (table m)[i := prev @ after], size_m := z\<rparr>)))))"
      using c s l False Del
      by (simp add: del_def incr_Inr f cong: list.case_cong prod.case_cong if_cong)
    moreover have "del m0 k =
     (case table m ! i of
         [] \<Rightarrow> Inr (INT_MAX, mutex_unlock i E0)
       | entry # rest \<Rightarrow>
           if key entry = k then
             and_then (decr (size_m m)) (\<lambda>z.
               Inr (val entry,
                    mutex_unlock i (E0\<lparr>size_m := z, table := (table m)[i := rest]\<rparr>)))
           else
             (case del_loop k [] (entry # rest) of
                (prev, []) \<Rightarrow> Inr (INT_MAX, mutex_unlock i E0)
              | (prev, hit # after) \<Rightarrow>
                  if prev = [] then Inl Null_dereference
                  else
                    and_then (decr (size_m m)) (\<lambda>z.
                      Inr (val hit,
                           mutex_unlock i
                             (E0\<lparr>table := (table m)[i := prev @ after], size_m := z\<rparr>)))))"
      using c s l0 False Del
      by (simp add: del_def incr_Inr f cong: list.case_cong prod.case_cong if_cong)
    ultimately show ?thesis using Del
      by (cases "decr (size_m m)")
        (auto simp: m0_def [symmetric] u u' u0 split: list.splits prod.splits)
  qed
qed

lemma unlocked_ready:
  "shaped m \<Longrightarrow> ready (m\<lparr>lock := replicate (length (lock m)) False\<rparr>)"
  by (simp add: ready_def shaped_def)

lemma unlocked_bucket [simp]: "bucket (m\<lparr>lock := l\<rparr>) k = bucket m k"
  by (simp add: bucket_def)

lemma call_returns_vacant:
  assumes "shaped m" and "bucket m (key_of c) = Inr i" and "\<not> lock m ! i"
    and "numOps m \<noteq> INT_MAX" and "size_m m \<noteq> INT_MAX" and "size_m m \<noteq> INT_MIN"
  shows "\<exists>r m'. apply_call m c = Inr (r, m') \<and>
           lock_log m' = lock_log m @ [Acquire i, Release i] \<and> lock m' = lock m"
proof -
  let ?m0 = "m\<lparr>lock := replicate (length (lock m)) False\<rparr>"
  note rd = unlocked_ready [OF assms(1)]
  from call_returns_ready [OF rd, of c i] assms(2,4,5,6)
  obtain r m0' where a: "apply_call ?m0 c = Inr (r, m0')" by auto
  from apply_call_frame [OF rd a] assms(2)
  have "lock_log m0' = lock_log m @ [Acquire i, Release i]" by auto
  moreover from call_relock [OF assms(1,2,3)] a
  have "apply_call m c = Inr (r, m0'\<lparr>lock := lock m\<rparr>)" by simp
  ultimately show ?thesis by simp
qed

lemma call_Inr_vacant:
  assumes "shaped m" and "apply_call m c = Inr (r, m')"
  shows "\<exists>i. bucket m (key_of c) = Inr i \<and> \<not> lock m ! i"
proof -
  from assms(2) obtain n index m1 where "incr (numOps m) = Inr n"
    and c: "c_rem (key_of c) (capacity m) = Inr index"
    and l: "mutex_lock index (m\<lparr>numOps := n\<rparr>) = Inr m1"
    by (cases c) (auto simp: get_def put_def del_def and_then_Inr_iff)
  from l obtain i where i: "slot index (lock m) = Inr i" "\<not> lock m ! i"
    by (auto simp: mutex_lock_def and_then_Inr_iff split: if_splits)
  from i(1) assms(1) have "slot index (table m) = Inr i"
    by (auto simp: slot_def shaped_def split: if_splits)
  with c i(2) show ?thesis by (auto simp: bucket_def)
qed

lemma call_frame_vacant:
  assumes "shaped m" and "apply_call m c = Inr (r, m')"
  shows "\<exists>i. bucket m (key_of c) = Inr i \<and> \<not> lock m ! i \<and>
           lock_log m' = lock_log m @ [Acquire i, Release i] \<and> lock m' = lock m"
proof -
  let ?m0 = "m\<lparr>lock := replicate (length (lock m)) False\<rparr>"
  from call_Inr_vacant [OF assms] obtain i where
    i: "bucket m (key_of c) = Inr i" "\<not> lock m ! i" by blast
  note rd = unlocked_ready [OF assms(1)]
  from call_relock [OF assms(1) i] assms(2)
  have "and_then (apply_call ?m0 c) (\<lambda>(r, m'). Inr (r, m'\<lparr>lock := lock m\<rparr>)) = Inr (r, m')"
    by simp
  then obtain m0' where
    a: "apply_call ?m0 c = Inr (r, m0')" "m' = m0'\<lparr>lock := lock m\<rparr>"
    by (auto simp: and_then_Inr_iff)
  from apply_call_frame [OF rd a(1)] i(1)
  have "lock_log m0' = lock_log m @ [Acquire i, Release i]" by auto
  with a(2) i show ?thesis by simp
qed

lemma bucket_same_shape:
  "capacity m' = capacity m \<Longrightarrow> length (table m') = length (table m) \<Longrightarrow>
   bucket m' k = bucket m k"
  by (simp add: bucket_def slot_def)

lemma run_log_exact:
  "ready m \<Longrightarrow> run m cs = Inr (rs, m') \<Longrightarrow>
   \<exists>ixs. map (\<lambda>c. bucket m (key_of c)) cs = map Inr ixs \<and>
     lock_log m' = lock_log m @ concat (map (\<lambda>i. [Acquire i, Release i]) ixs)"
proof (induction cs arbitrary: m rs)
  case Nil
  then show ?case by simp
next
  case (Cons c cs)
  from Cons.prems(2) obtain r m1 rs' where
    s: "apply_call m c = Inr (r, m1)" "run m1 cs = Inr (rs', m')"
    unfolding run_Cons_Inr by blast
  from apply_call_frame [OF Cons.prems(1) s(1)] obtain i where
    f: "capacity m1 = capacity m" "lock m1 = lock m" "length (table m1) = length (table m)"
      "bucket m (key_of c) = Inr i" "lock_log m1 = lock_log m @ [Acquire i, Release i]"
    by blast
  with Cons.prems(1) have r1: "ready m1" by (simp add: ready_def shaped_def)
  from Cons.IH [OF r1 s(2)] obtain ixs where
    e: "map (\<lambda>c. bucket m1 (key_of c)) cs = map Inr ixs"
      "lock_log m' = lock_log m1 @ concat (map (\<lambda>i. [Acquire i, Release i]) ixs)"
    by blast
  from e(1) bucket_same_shape [OF f(1,3)]
  have "map (\<lambda>c. bucket m (key_of c)) cs = map Inr ixs" by simp
  with e(2) f(4,5) have "map (\<lambda>c. bucket m (key_of c)) (c # cs) = map Inr (i # ixs) \<and>
    lock_log m' = lock_log m @ concat (map (\<lambda>i. [Acquire i, Release i]) (i # ixs))"
    by simp
  then show ?case by blast
qed

lemma run_initmap_log:
  assumes "0 < sint cap" and "\<forall>c \<in> set cs. 0 \<le> sint (key_of c)"
    and "length cs \<le> 2147483647"
  shows "\<exists>rs m' ixs. run (initmap cap) cs = Inr (rs, m') \<and>
     map (\<lambda>c. bucket (initmap cap) (key_of c)) cs = map Inr ixs \<and>
     lock_log m' = concat (map (\<lambda>i. [Acquire i, Release i]) ixs)"
proof -
  from run_initmap_returns [OF assms] obtain rs m' where
    r: "run (initmap cap) cs = Inr (rs, m')" by blast
  have "ready (initmap cap)" using consistent_initmap by (simp add: consistent_def)
  from run_log_exact [OF this r] r show ?thesis by (auto simp: initmap_def)
qed

section \<open>Turns of several threads\<close>

lemma releases_iff: "releases i p \<longleftrightarrow> (\<exists>es. p = Release i # es)"
  by (cases "(i, p)" rule: releases.cases) auto

lemma in_call_iff:
  "in_call p \<longleftrightarrow> call_pairs p \<or> (\<exists>i es. p = Release i # es \<and> call_pairs es)"
  by (cases p rule: in_call.cases) auto

lemma orderly_iff:
  "orderly c \<longleftrightarrow>
     (\<forall>p \<in> set (snd c). in_call p \<and> (\<forall>e \<in> set p. mutex_of e < length (fst c))) \<and>
     (\<forall>i < length (fst c). fst c ! i \<longrightarrow>
        (\<exists>t < length (snd c). \<exists>es. snd c ! t = Release i # es))"
proof -
  have "(\<forall>i \<in> {..<length (fst c)}. fst c ! i \<longrightarrow>
           (\<exists>t \<in> {..<length (snd c)}. releases i (snd c ! t))) \<longleftrightarrow>
        (\<forall>i < length (fst c). fst c ! i \<longrightarrow>
           (\<exists>t < length (snd c). \<exists>es. snd c ! t = Release i # es))"
    by (simp add: releases_iff Ball_def Bex_def)
  then show ?thesis by (simp only: orderly_def)
qed

lemma call_pairs_Acquire:
  assumes "call_pairs (Acquire i # es)"
  shows "\<exists>es'. es = Release i # es' \<and> call_pairs es'"
proof (cases es)
  case Nil
  with assms show ?thesis by simp
next
  case (Cons e es')
  with assms show ?thesis by (cases e) auto
qed

lemma orderly_nth:
  assumes "orderly (held, ps)" and "t < length ps"
  shows "in_call (ps ! t)" and "\<forall>e \<in> set (ps ! t). mutex_of e < length held"
proof -
  from assms(2) have "ps ! t \<in> set ps" by simp
  with assms(1) show "in_call (ps ! t)" "\<forall>e \<in> set (ps ! t). mutex_of e < length held"
    by (simp_all add: orderly_iff)
qed

lemma in_call_Acquire:
  "in_call (Acquire i # es) \<Longrightarrow> \<exists>es'. es = Release i # es' \<and> call_pairs es'"
  by (auto simp: in_call_iff dest: call_pairs_Acquire)

lemma in_call_Release:
  "in_call (Release i # es) \<Longrightarrow> call_pairs es"
  by (auto simp: in_call_iff)

lemma orderly_turn:
  assumes "orderly c" and "turn c c'"
  shows "orderly c'"
  using assms(2,1)
proof (induction rule: turn.induct)
  case (locks t ps i es held)
  from orderly_nth [OF locks.prems locks.hyps(1)] locks.hyps(2)
  have p: "in_call (Acquire i # es)"
    "\<forall>e \<in> set (Acquire i # es). mutex_of e < length held"
    by simp_all
  from in_call_Acquire [OF p(1)] obtain es' where es: "es = Release i # es'" "call_pairs es'"
    by blast
  have 1: "\<forall>p \<in> set (ps[t := es]). in_call p \<and> (\<forall>e \<in> set p. mutex_of e < length (held[i := True]))"
  proof
    fix q assume "q \<in> set (ps[t := es])"
    then have "q = es \<or> q \<in> set ps" using set_update_subset_insert [of ps t es] by auto
    then show "in_call q \<and> (\<forall>e \<in> set q. mutex_of e < length (held[i := True]))"
      using es p(2) locks.prems by (auto simp: orderly_iff in_call_iff)
  qed
  have 2: "\<exists>u < length (ps[t := es]). \<exists>es''. ps[t := es] ! u = Release j # es''"
    if "j < length (held[i := True])" "held[i := True] ! j" for j
  proof (cases "j = i")
    case True
    with es locks.hyps(1) show ?thesis by (intro exI [of _ t]) simp
  next
    case False
    with that have "held ! j" "j < length held" by simp_all
    with locks.prems obtain u es'' where u: "u < length ps" "ps ! u = Release j # es''"
      by (auto simp: orderly_iff)
    with locks.hyps(2) have "u \<noteq> t" by auto
    with u show ?thesis by (intro exI [of _ u]) simp
  qed
  from 1 2 show ?case by (simp add: orderly_iff)
next
  case (unlocks t ps i es held)
  from orderly_nth [OF unlocks.prems unlocks.hyps(1)] unlocks.hyps(2)
  have p: "in_call (Release i # es)"
    "\<forall>e \<in> set (Release i # es). mutex_of e < length held"
    by simp_all
  from in_call_Release [OF p(1)] have es: "call_pairs es" .
  have 1: "\<forall>p \<in> set (ps[t := es]). in_call p \<and> (\<forall>e \<in> set p. mutex_of e < length (held[i := False]))"
  proof
    fix q assume "q \<in> set (ps[t := es])"
    then have "q = es \<or> q \<in> set ps" using set_update_subset_insert [of ps t es] by auto
    then show "in_call q \<and> (\<forall>e \<in> set q. mutex_of e < length (held[i := False]))"
      using es p(2) unlocks.prems by (auto simp: orderly_iff in_call_iff)
  qed
  have 2: "\<exists>u < length (ps[t := es]). \<exists>es''. ps[t := es] ! u = Release j # es''"
    if "j < length (held[i := False])" "held[i := False] ! j" for j
  proof -
    from that have ji: "j \<noteq> i" by (cases "j = i") auto
    with that have "held ! j" "j < length held" by simp_all
    with unlocks.prems obtain u es'' where u: "u < length ps" "ps ! u = Release j # es''"
      by (auto simp: orderly_iff)
    with unlocks.hyps(2) ji have "u \<noteq> t" by auto
    with u show ?thesis by (intro exI [of _ u]) simp
  qed
  from 1 2 show ?case by (simp add: orderly_iff)
qed

lemma orderly_turns:
  "turn\<^sup>*\<^sup>* c c' \<Longrightarrow> orderly c \<Longrightarrow> orderly c'"
  by (induction rule: rtranclp_induct) (auto intro: orderly_turn)

lemma orderly_progress:
  assumes "orderly (held, ps)"
  shows "(\<forall>p \<in> set ps. p = []) \<or> (\<exists>c'. turn (held, ps) c')"
proof (cases "\<forall>p \<in> set ps. p = []")
  case True
  then show ?thesis by simp
next
  case False
  then obtain t e es where t: "t < length ps" "ps ! t = e # es"
    by (metis in_set_conv_nth list.exhaust)
  show ?thesis
  proof (cases e)
    case (Release i)
    with t turn.unlocks [of t ps i es held] show ?thesis by blast
  next
    case (Acquire i)
    from orderly_nth(2) [OF assms t(1)] t(2) Acquire have i: "i < length held" by simp
    show ?thesis
    proof (cases "held ! i")
      case False
      with t Acquire i turn.locks [of t ps i es held] show ?thesis by blast
    next
      case True
      with assms i obtain u es' where "u < length ps" "ps ! u = Release i # es'"
        by (auto simp: orderly_iff)
      with turn.unlocks [of u ps i es' held] show ?thesis by blast
    qed
  qed
qed

lemma run_log:
  "ready m \<Longrightarrow> run m cs = Inr (rs, m') \<Longrightarrow>
   ready m' \<and> length (lock m') = length (lock m) \<and>
   (\<exists>es. lock_log m' = lock_log m @ es \<and> call_pairs es \<and>
      (\<forall>e \<in> set es. mutex_of e < length (lock m)))"
proof (induction cs arbitrary: m rs)
  case Nil
  then show ?case by simp
next
  case (Cons c cs)
  from Cons.prems(2) obtain r m1 rs' where
    s: "apply_call m c = Inr (r, m1)" "run m1 cs = Inr (rs', m')"
    unfolding run_Cons_Inr by blast
  from apply_call_frame [OF Cons.prems(1) s(1)] obtain i where
    f: "capacity m1 = capacity m" "lock m1 = lock m" "length (table m1) = length (table m)"
      "bucket m (key_of c) = Inr i" "lock_log m1 = lock_log m @ [Acquire i, Release i]"
    by blast
  with Cons.prems(1) have r1: "ready m1" by (simp add: ready_def shaped_def)
  from bucket_bound [OF f(4)] Cons.prems(1) have i: "i < length (lock m)"
    by (simp add: ready_def shaped_def)
  from Cons.IH [OF r1 s(2)] obtain es where
    e: "ready m'" "length (lock m') = length (lock m1)" "lock_log m' = lock_log m1 @ es"
      "call_pairs es" "\<forall>e \<in> set es. mutex_of e < length (lock m1)"
    by blast
  from e f i have "lock_log m' = lock_log m @ (Acquire i # Release i # es) \<and>
      call_pairs (Acquire i # Release i # es) \<and>
      (\<forall>e \<in> set (Acquire i # Release i # es). mutex_of e < length (lock m))"
    by simp
  with e(1,2) f(2) show ?case by metis
qed

lemma initial_orderly:
  assumes "\<forall>p \<in> set ps. \<exists>cs rs m. run (initmap cap) cs = Inr (rs, m) \<and> p = lock_log m"
  shows "orderly (lock (initmap cap), ps)"
proof -
  have rd: "ready (initmap cap)" using consistent_initmap by (simp add: consistent_def)
  have "in_call p \<and> (\<forall>e \<in> set p. mutex_of e < length (lock (initmap cap)))"
    if "p \<in> set ps" for p
  proof -
    from assms that obtain cs rs m where
      "run (initmap cap) cs = Inr (rs, m)" "p = lock_log m" by blast
    with run_log [OF rd this(1)] show ?thesis by (auto simp: in_call_iff initmap_def)
  qed
  moreover have "\<not> lock (initmap cap) ! i" if "i < length (lock (initmap cap))" for i
    using that by (simp add: initmap_def)
  ultimately show ?thesis by (auto simp: orderly_iff)
qed

lemma list_all2_exists:
  "\<forall>x \<in> set xs. \<exists>y. P x y \<Longrightarrow> \<exists>ys. list_all2 P xs ys"
proof (induction xs)
  case Nil
  then show ?case by simp
next
  case (Cons x xs)
  then obtain y ys where "P x y" "list_all2 P xs ys" by auto
  then have "list_all2 P (x # xs) (y # ys)" by simp
  then show ?case by blast
qed

lemma threads_progress:
  assumes "\<forall>p \<in> set ps. \<exists>cs rs m. run (initmap cap) cs = Inr (rs, m) \<and> p = lock_log m"
    and "turn\<^sup>*\<^sup>* (lock (initmap cap), ps) (held, qs)"
  shows "(\<forall>q \<in> set qs. q = []) \<or> (\<exists>next. turn (held, qs) next)"
proof -
  from orderly_turns [OF assms(2) initial_orderly [OF assms(1)]]
  show ?thesis by (rule orderly_progress)
qed

section \<open>More about the example state\<close>

lemma run_to_collided:
  "run (initmap 4) [Put 1 10, Put 5 20] = Inr ([INT_MAX, INT_MAX], collided)"
  by (simp add: initmap_4 collided_def put_def incr_def c_rem_examples mutex_lock_def slot_def
      mutex_unlock_def INT_MAX_def)

text \<open>The scenario of the specification, with its seven results and the final size.\<close>

lemma spec_scenario:
  "\<exists>m. run (initmap 4) [Put 1 10, Put 5 20, Get 1, Get 5, Put 1 99, Del 5, Get 5] =
     Inr ([INT_MAX, INT_MAX, 10, 20, 10, 20, INT_MAX], m) \<and> size_m m = 1"
  by (simp add: initmap_4 put_def get_def del_def incr_def decr_def c_rem_examples mutex_lock_def
      slot_def mutex_unlock_def INT_MAX_def INT_MIN_def)

lemma get_collided_5: "get collided 5 = Inr (20, finished 1 collided)"
  using get_present [OF ready_collided bucket_examples(3), of "[\<lparr>key = 1, val = 10\<rparr>]"
      "\<lparr>key = 5, val = 20\<rparr>" "[]"]
  by (simp add: collided_def INT_MAX_def)

lemma calls_on_collided:
  "\<exists>m'. put collided 9 30 = Inr ((INT_MAX, Appended_at_tail), m')"
  "\<exists>m'. put collided 5 77 = Inr ((20, Replaced_value), m')"
  "\<exists>m'. del collided 5 = Inr (20, m')"
  "\<exists>m'. del collided 9 = Inr (INT_MAX, m')"
  by (simp_all add: collided_def put_def del_def incr_def decr_def c_rem_examples mutex_lock_def
      slot_def mutex_unlock_def INT_MAX_def INT_MIN_def)

lemma entries_collided: "entries collided = [\<lparr>key = 1, val = 10\<rparr>, \<lparr>key = 5, val = 20\<rparr>]"
  by (simp add: entries_def collided_def)

lemma shaped_collided: "shaped collided"
  using ready_collided by (simp add: ready_def)

lemma run_put_del:
  "\<exists>m. run (initmap 4) [Put 1 10, Del 1] = Inr ([INT_MAX, 10], m) \<and>
     lock_log m = [Acquire 1, Release 1, Acquire 1, Release 1]"
  by (simp add: initmap_4 put_def del_def incr_def decr_def c_rem_examples mutex_lock_def
      slot_def mutex_unlock_def INT_MAX_def INT_MIN_def)

lemma bucket_initmap_4_5: "bucket (initmap 4) 5 = Inr 1"
  by (simp add: bucket_def c_rem_examples slot_def initmap_4)

section \<open>Sequences of calls\<close>

text \<open>
  Claim C4.  After any sequence of calls on a fresh map that C defines, \<open>size\<close> is the
  number of entries in all chains, which is the number of distinct keys in the map.  A
  further \<open>put\<close> raises \<open>size\<close> by one if the key is new and leaves it otherwise, a
  further \<open>del\<close> lowers it by one if the key is in the map and leaves it otherwise, and
  a further \<open>get\<close> leaves it.
\<close>

theorem size_counts_entries:
  assumes "run (initmap cap) cs = Inr (rs, m)"
  shows "sint (size_m m) = int (length (entries m))
       \<and> length (entries m) = card (key ` set (entries m))
       \<and> (\<forall>k v r how m'. put m k v = Inr ((r, how), m') \<longrightarrow>
            sint (size_m m') = sint (size_m m) + (if k \<in> key ` set (entries m) then 0 else 1))
       \<and> (\<forall>k r m'. del m k = Inr (r, m') \<longrightarrow>
            sint (size_m m') = sint (size_m m) - (if k \<in> key ` set (entries m) then 1 else 0))
       \<and> (\<forall>k r m'. get m k = Inr (r, m') \<longrightarrow> sint (size_m m') = sint (size_m m))"
proof -
  from reachable_consistent [OF assms] have c: "consistent m" .
  then have rd: "ready m" and pl: "placed m" and cd: "chains_distinct m" and cn: "counted m"
    by (simp_all add: consistent_def)
  have 1: "sint (size_m m) = int (length (entries m))" using cn by (simp add: counted_def)
  have 2: "length (entries m) = card (key ` set (entries m))"
    using distinct_card [OF consistent_distinct [OF pl cd]] by simp
  have 3: "sint (size_m m') = sint (size_m m) + (if k \<in> key ` set (entries m) then 0 else 1)"
    if "put m k v = Inr ((r, how), m')" for k v r how m'
    using put_cases [OF rd that] in_entries_iff [OF pl, of k] by (auto simp: sint_incr)
  have 4: "sint (size_m m') = sint (size_m m) - (if k \<in> key ` set (entries m) then 1 else 0)"
    if "del m k = Inr (r, m')" for k r m'
    using del_cases [OF rd that] in_entries_iff [OF pl, of k] by (auto simp: sint_decr)
  have 5: "sint (size_m m') = sint (size_m m)" if "get m k = Inr (r, m')" for k r m'
    using get_cases [OF rd that] by auto
  from 1 2 3 4 5 show ?thesis by blast
qed

theorem size_counts_entries_witness:
  "run (initmap 4) [Put 1 10, Put 5 20] = Inr ([INT_MAX, INT_MAX], collided) \<and>
   sint (size_m collided) = int (length (entries collided)) \<and>
   length (entries collided) = card (key ` set (entries collided)) \<and>
   length (entries collided) = 2 \<and>
   (\<exists>m'. put collided 9 30 = Inr ((INT_MAX, Appended_at_tail), m') \<and>
      sint (size_m m') = sint (size_m collided) + 1) \<and>
   (\<exists>m'. put collided 5 77 = Inr ((20, Replaced_value), m') \<and>
      sint (size_m m') = sint (size_m collided)) \<and>
   (\<exists>m'. del collided 5 = Inr (20, m') \<and> sint (size_m m') = sint (size_m collided) - 1) \<and>
   (\<exists>m'. del collided 9 = Inr (INT_MAX, m') \<and> sint (size_m m') = sint (size_m collided)) \<and>
   (\<exists>m'. get collided 5 = Inr (20, m') \<and> sint (size_m m') = sint (size_m collided))"
proof -
  note t = size_counts_entries [OF run_to_collided]
  from calls_on_collided obtain m1 m2 m3 m4 where
    c: "put collided 9 30 = Inr ((INT_MAX, Appended_at_tail), m1)"
      "put collided 5 77 = Inr ((20, Replaced_value), m2)"
      "del collided 5 = Inr (20, m3)" "del collided 9 = Inr (INT_MAX, m4)"
    by blast
  from t c(1) have 1: "sint (size_m m1) = sint (size_m collided) + 1"
    by (simp add: entries_collided)
  from t c(2) have 2: "sint (size_m m2) = sint (size_m collided)"
    by (simp add: entries_collided)
  from t c(3) have 3: "sint (size_m m3) = sint (size_m collided) - 1"
    by (simp add: entries_collided)
  from t c(4) have 4: "sint (size_m m4) = sint (size_m collided)"
    by (simp add: entries_collided)
  from t get_collided_5
  have 5: "sint (size_m (finished 1 collided)) = sint (size_m collided)" by blast
  from t have 6: "sint (size_m collided) = int (length (entries collided))"
    "length (entries collided) = card (key ` set (entries collided))" by simp_all
  from 1 2 3 4 5 6 c get_collided_5 run_to_collided show ?thesis
    by (simp add: entries_collided)
qed

text \<open>
  Claim C5.  After any sequence of calls on a fresh map that C defines, no two entries
  of the map, in whatever chains, have the same key: every key occurs at most once;
  and this is still so after one more call.
\<close>

theorem one_entry_per_key:
  assumes "run (initmap cap) cs = Inr (rs, m)"
  shows "distinct (map key (entries m))
       \<and> (\<forall>k. length (filter (\<lambda>e. key e = k) (entries m)) \<le> 1)
       \<and> (\<forall>c r m'. apply_call m c = Inr (r, m') \<longrightarrow> distinct (map key (entries m')))"
proof -
  from reachable_consistent [OF assms] have c: "consistent m" .
  then have d: "distinct (map key (entries m))"
    by (simp add: consistent_def consistent_distinct)
  have "distinct (map key (entries m'))" if "apply_call m c = Inr (r, m')" for c r m'
    using apply_call_step [OF c that] by (simp add: consistent_def consistent_distinct)
  with d filter_key_le_1 [OF d] show ?thesis by blast
qed

theorem one_entry_per_key_witness:
  "run (initmap 4) [Put 1 10, Put 5 20] = Inr ([INT_MAX, INT_MAX], collided) \<and>
   distinct (map key (entries collided)) \<and>
   length (filter (\<lambda>e. key e = 5) (entries collided)) \<le> 1 \<and>
   (\<exists>m'. apply_call collided (Put 5 77) = Inr (20, m') \<and> distinct (map key (entries m')))"
proof -
  note t = one_entry_per_key [OF run_to_collided]
  from calls_on_collided(2) obtain m' where
    "apply_call collided (Put 5 77) = Inr (20, m')" by auto
  with t run_to_collided show ?thesis by blast
qed

text \<open>
  Claim C6.  A single thread makes calls on a fresh map.  When, after \<open>put(k, v)\<close>, no
  call has been a \<open>put\<close> or a \<open>del\<close> of \<open>k\<close>, then \<open>get(k)\<close> returns \<open>v\<close>, and a \<open>put\<close> for
  \<open>k\<close> returns \<open>v\<close>.  When, after \<open>del(k)\<close>, no call has been a \<open>put\<close> of \<open>k\<close>, then
  \<open>get(k)\<close> returns \<open>INT_MAX\<close>.  Such sequences of calls do return: this is so whenever
  the capacity is positive, no key is negative and there are fewer calls than
  \<open>INT_MAX\<close>.
\<close>

theorem single_thread_round_trips:
  "((\<forall>c \<in> set between. \<not> writes k c) \<longrightarrow>
      (\<forall>rs m. run (initmap cap) (before @ Put k v # between @ [Get k]) = Inr (rs, m) \<longrightarrow>
         last rs = v) \<and>
      (\<forall>rs m. run (initmap cap) (before @ Put k v # between @ [Put k v']) = Inr (rs, m) \<longrightarrow>
         last rs = v))
   \<and> ((\<forall>c \<in> set between. \<not> stores k c) \<longrightarrow>
      (\<forall>rs m. run (initmap cap) (before @ Del k # between @ [Get k]) = Inr (rs, m) \<longrightarrow>
         last rs = INT_MAX))
   \<and> (0 < sint cap \<and> 0 \<le> sint k \<and> (\<forall>c \<in> set (before @ between). 0 \<le> sint (key_of c)) \<and>
       length before + length between + 2 \<le> 2147483647 \<longrightarrow>
         (\<exists>rs m. run (initmap cap) (before @ Put k v # between @ [Get k]) = Inr (rs, m)) \<and>
         (\<exists>rs m. run (initmap cap) (before @ Put k v # between @ [Put k v']) = Inr (rs, m)) \<and>
         (\<exists>rs m. run (initmap cap) (before @ Del k # between @ [Get k]) = Inr (rs, m)))"
proof (intro conjI allI impI)
  fix rs m
  assume w: "\<forall>c \<in> set between. \<not> writes k c"
  {
    assume "run (initmap cap) (before @ Put k v # between @ [Get k]) = Inr (rs, m)"
    from run_write_then_call [OF this w] show "last rs = v" by auto
  }
  {
    assume "run (initmap cap) (before @ Put k v # between @ [Put k v']) = Inr (rs, m)"
    from run_write_then_call [OF this w] show "last rs = v" by auto
  }
next
  fix rs m
  assume "\<forall>c \<in> set between. \<not> stores k c"
    and "run (initmap cap) (before @ Del k # between @ [Get k]) = Inr (rs, m)"
  from run_del_then_get [OF this(2,1)] show "last rs = INT_MAX" .
next
  assume a: "0 < sint cap \<and> 0 \<le> sint k \<and> (\<forall>c \<in> set (before @ between). 0 \<le> sint (key_of c)) \<and>
    length before + length between + 2 \<le> 2147483647"
  then show "\<exists>rs m. run (initmap cap) (before @ Put k v # between @ [Get k]) = Inr (rs, m)"
    by (intro run_initmap_returns) auto
  from a show "\<exists>rs m. run (initmap cap) (before @ Del k # between @ [Get k]) = Inr (rs, m)"
    by (intro run_initmap_returns) auto
  from a show "\<exists>rs m. run (initmap cap) (before @ Put k v # between @ [Put k v']) = Inr (rs, m)"
    by (intro run_initmap_returns) auto
qed

theorem single_thread_round_trips_witness:
  "\<not> writes 5 (Get 1) \<and> \<not> stores 5 (Del 5) \<and> 0 < sint (4 :: c_int) \<and> 0 \<le> sint (5 :: c_int) \<and>
   0 \<le> sint (key_of (Put 1 10)) \<and> 0 \<le> sint (key_of (Get 1)) \<and> 0 \<le> sint (key_of (Del 5)) \<and>
   length [Put 1 10] + length [Get 1] + 2 \<le> (2147483647 :: nat) \<and>
   (\<exists>rs m. run (initmap 4) ([Put 1 10] @ Put 5 20 # [Get 1] @ [Get 5]) = Inr (rs, m) \<and>
      last rs = 20) \<and>
   (\<exists>rs m. run (initmap 4) ([Put 1 10] @ Put 5 20 # [Get 1] @ [Put 5 77]) = Inr (rs, m) \<and>
      last rs = 20) \<and>
   (\<exists>rs m. run (initmap 4) ([Put 1 10] @ Del 5 # [Del 5] @ [Get 5]) = Inr (rs, m) \<and>
      last rs = INT_MAX)"
proof -
  have h: "\<forall>c \<in> set [Get 1]. \<not> writes 5 c" "\<forall>c \<in> set [Del 5]. \<not> stores 5 c" by simp_all
  have g: "0 < sint (4 :: c_int) \<and> 0 \<le> sint (5 :: c_int) \<and>
    (\<forall>c \<in> set ([Put 1 10] @ [Get 1]). 0 \<le> sint (key_of c)) \<and>
    length [Put 1 10] + length [Get 1] + 2 \<le> (2147483647 :: nat)"
    "0 < sint (4 :: c_int) \<and> 0 \<le> sint (5 :: c_int) \<and>
    (\<forall>c \<in> set ([Put 1 10] @ [Del 5]). 0 \<le> sint (key_of c)) \<and>
    length [Put 1 10] + length [Del 5] + 2 \<le> (2147483647 :: nat)" by simp_all
  note t = single_thread_round_trips [of "[Get 1]" 5 4 "[Put 1 10]" 20 77]
  note u = single_thread_round_trips [of "[Del 5]" 5 4 "[Put 1 10]" 20 77]
  from t g(1) obtain rs1 m1 rs2 m2 where
    r: "run (initmap 4) ([Put 1 10] @ Put 5 20 # [Get 1] @ [Get 5]) = Inr (rs1, m1)"
      "run (initmap 4) ([Put 1 10] @ Put 5 20 # [Get 1] @ [Put 5 77]) = Inr (rs2, m2)"
    by blast
  from u g(2) obtain rs3 m3 where
    r3: "run (initmap 4) ([Put 1 10] @ Del 5 # [Del 5] @ [Get 5]) = Inr (rs3, m3)"
    by blast
  from t h(1) r have "last rs1 = 20" "last rs2 = 20" by blast+
  moreover from u h(2) r3 have "last rs3 = INT_MAX" by blast
  ultimately have "(\<exists>rs m. run (initmap 4) ([Put 1 10] @ Put 5 20 # [Get 1] @ [Get 5]) = Inr (rs, m) \<and>
      last rs = 20) \<and>
   (\<exists>rs m. run (initmap 4) ([Put 1 10] @ Put 5 20 # [Get 1] @ [Put 5 77]) = Inr (rs, m) \<and>
      last rs = 20) \<and>
   (\<exists>rs m. run (initmap 4) ([Put 1 10] @ Del 5 # [Del 5] @ [Get 5]) = Inr (rs, m) \<and>
      last rs = INT_MAX)" using r r3 by blast
  then show ?thesis by simp
qed

section \<open>The bucket index\<close>

text \<open>
  Claim C7.  On a map of positive capacity whose arrays have \<open>capacity\<close> elements, a key
  that is not negative gives an index from 0 up to, and not including, the capacity, so
  that it is a valid subscript of \<open>lock\<close> and of \<open>table\<close>, and no call of \<open>get\<close>, \<open>put\<close> or
  \<open>del\<close> leaves the arrays.  A negative key that is not a multiple of the capacity gives
  a negative index, and each of the three calls then subscripts \<open>lock\<close> outside the
  array.
\<close>

theorem bucket_index_bounds:
  assumes "shaped m" and "0 < sint (capacity m)"
  shows "(0 \<le> sint k \<longrightarrow>
            (\<exists>index. c_rem k (capacity m) = Inr index \<and>
               0 \<le> sint index \<and> sint index < sint (capacity m) \<and>
               slot index (lock m) = Inr (nat (sint index)) \<and>
               slot index (table m) = Inr (nat (sint index))) \<and>
            get m k \<noteq> Inl Out_of_bounds \<and> put m k v \<noteq> Inl Out_of_bounds \<and>
            del m k \<noteq> Inl Out_of_bounds)
       \<and> (sint k < 0 \<and> \<not> sint (capacity m) dvd sint k \<longrightarrow>
            (\<exists>index. c_rem k (capacity m) = Inr index \<and>
               sint index < 0 \<and> - sint (capacity m) < sint index \<and>
               slot index (lock m) = Inl Out_of_bounds) \<and>
            (numOps m \<noteq> INT_MAX \<longrightarrow>
               get m k = Inl Out_of_bounds \<and> put m k v = Inl Out_of_bounds \<and>
               del m k = Inl Out_of_bounds))"
proof (intro conjI impI)
  let ?r = "sint k smod sint (capacity m)"
  let ?index = "word_of_int ?r :: c_int"
  from c_rem_positive [OF assms(2), of k]
  have c: "c_rem k (capacity m) = Inr ?index" "sint ?index = ?r" by simp_all
  note b = smod_bounds [OF assms(2), of "sint k"]
  from assms(1) have len: "length (lock m) = length (table m)" by (simp add: shaped_def)
  {
    assume "0 \<le> sint k"
    with b have r: "0 \<le> ?r" "?r < sint (capacity m)" by auto
    with c assms(1) have s: "slot ?index (lock m) = Inr (nat (sint ?index))"
      "slot ?index (table m) = Inr (nat (sint ?index))"
      by (simp_all add: slot_def shaped_def)
    with c r show "\<exists>index. c_rem k (capacity m) = Inr index \<and>
               0 \<le> sint index \<and> sint index < sint (capacity m) \<and>
               slot index (lock m) = Inr (nat (sint index)) \<and>
               slot index (table m) = Inr (nat (sint index))"
      by auto
    from c s have bk: "bucket m k = Inr (nat (sint ?index))" by (simp add: bucket_def)
    from get_in_bounds [OF bk len] show "get m k \<noteq> Inl Out_of_bounds" .
    from put_in_bounds [OF bk len] show "put m k v \<noteq> Inl Out_of_bounds" .
    from del_in_bounds [OF bk len] show "del m k \<noteq> Inl Out_of_bounds" .
  }
  {
    assume "sint k < 0 \<and> \<not> sint (capacity m) dvd sint k"
    with b have r: "?r < 0" "- sint (capacity m) < ?r" by auto
    with c have s: "slot ?index (lock m) = Inl Out_of_bounds" by (simp add: slot_negative)
    with c r show "\<exists>index. c_rem k (capacity m) = Inr index \<and>
               sint index < 0 \<and> - sint (capacity m) < sint index \<and>
               slot index (lock m) = Inl Out_of_bounds"
      by auto
    assume n: "numOps m \<noteq> INT_MAX"
    from n c s show "get m k = Inl Out_of_bounds"
      by (simp add: get_def incr_def mutex_lock_def)
    from n c s show "put m k v = Inl Out_of_bounds"
      by (simp add: put_def incr_def mutex_lock_def)
    from n c s show "del m k = Inl Out_of_bounds"
      by (simp add: del_def incr_def mutex_lock_def)
  }
qed

theorem bucket_index_bounds_witness:
  "shaped collided \<and> 0 < sint (capacity collided) \<and> 0 \<le> sint (5 :: c_int) \<and>
   c_rem 5 (capacity collided) = Inr 1 \<and> 0 \<le> sint (1 :: c_int) \<and>
   sint (1 :: c_int) < sint (capacity collided) \<and>
   slot 1 (lock collided) = Inr 1 \<and> slot 1 (table collided) = Inr 1 \<and>
   get collided 5 \<noteq> Inl Out_of_bounds \<and> put collided 5 0 \<noteq> Inl Out_of_bounds \<and>
   del collided 5 \<noteq> Inl Out_of_bounds \<and>
   sint (- 1 :: c_int) < 0 \<and> \<not> sint (capacity collided) dvd sint (- 1 :: c_int) \<and>
   c_rem (- 1) (capacity collided) = Inr (- 1) \<and>
   slot (- 1) (lock collided) = Inl Out_of_bounds \<and> numOps collided \<noteq> INT_MAX \<and>
   get collided (- 1) = Inl Out_of_bounds \<and> put collided (- 1) 0 = Inl Out_of_bounds \<and>
   del collided (- 1) = Inl Out_of_bounds"
proof -
  have c: "0 < sint (capacity collided)" by (simp add: collided_def)
  have k: "0 \<le> sint (5 :: c_int)" "sint (- 1 :: c_int) < 0"
    "\<not> sint (capacity collided) dvd sint (- 1 :: c_int)" "numOps collided \<noteq> INT_MAX"
    by (simp_all add: collided_def INT_MAX_def)
  have e: "c_rem 5 (capacity collided) = Inr 1" "c_rem (- 1) (capacity collided) = Inr (- 1)"
    "slot 1 (lock collided) = Inr 1" "slot 1 (table collided) = Inr 1"
    "slot (- 1) (lock collided) = Inl Out_of_bounds"
    "0 \<le> sint (1 :: c_int)" "sint (1 :: c_int) < sint (capacity collided)"
    by (simp_all add: collided_def c_rem_examples slot_def)
  from bucket_index_bounds [OF shaped_collided c, of 5 0] k(1)
  have 1: "get collided 5 \<noteq> Inl Out_of_bounds \<and> put collided 5 0 \<noteq> Inl Out_of_bounds \<and>
    del collided 5 \<noteq> Inl Out_of_bounds" by blast
  from bucket_index_bounds [OF shaped_collided c, of "- 1" 0] k(2,3,4)
  have 2: "get collided (- 1) = Inl Out_of_bounds \<and> put collided (- 1) 0 = Inl Out_of_bounds \<and>
    del collided (- 1) = Inl Out_of_bounds" by blast
  from 1 2 shaped_collided c k e show ?thesis by simp
qed

section \<open>The locks\<close>

text \<open>
  Claim C8.  A call of \<open>get\<close>, \<open>put\<close> or \<open>del\<close> on a map in which the mutex of the bucket of
  its key is free returns, whatever other mutexes are held, and its mutex operations
  are exactly two: it locks the mutex of that bucket and unlocks the same mutex.  So it
  holds one mutex at a time, never two, it holds none when it returns, and it leaves
  the other mutexes alone.  A call that finds the mutex of its bucket held waits for it
  and has locked nothing.  Every call that returns has done so in this way.  A sequence
  of calls on a fresh map returns and makes the lock and unlock of each of its calls in
  turn.  Therefore threads cannot block each other for ever: when every thread performs
  the mutex operations of a sequence of calls, then in every configuration that the
  threads can reach by taking turns, either all threads are done or some thread can make
  its next operation.
\<close>

theorem one_lock_per_call:
  "(shaped m \<and> bucket m (key_of c) = Inr i \<and> \<not> lock m ! i \<and> numOps m \<noteq> INT_MAX \<and>
    size_m m \<noteq> INT_MAX \<and> size_m m \<noteq> INT_MIN \<longrightarrow>
      (\<exists>r m'. apply_call m c = Inr (r, m') \<and>
         lock_log m' = lock_log m @ [Acquire i, Release i] \<and> lock m' = lock m))
   \<and> (shaped m \<and> bucket m (key_of c) = Inr i \<and> lock m ! i \<and> numOps m \<noteq> INT_MAX \<longrightarrow>
        apply_call m c = Inl Relock)
   \<and> (shaped m \<and> apply_call m c = Inr (r, m') \<longrightarrow>
        (\<exists>i. bucket m (key_of c) = Inr i \<and> \<not> lock m ! i \<and>
           lock_log m' = lock_log m @ [Acquire i, Release i] \<and> lock m' = lock m))
   \<and> (ready m \<and> apply_call m c = Inr (r, m') \<longrightarrow>
        (\<exists>i. bucket m (key_of c) = Inr i \<and>
           lock_log m' = lock_log m @ [Acquire i, Release i] \<and>
           lock m' = lock m \<and> ready m'))
   \<and> (0 < sint cap \<and> (\<forall>c \<in> set cs. 0 \<le> sint (key_of c)) \<and> length cs \<le> 2147483647 \<longrightarrow>
        (\<exists>rs m1 ixs. run (initmap cap) cs = Inr (rs, m1) \<and>
           map (\<lambda>c. bucket (initmap cap) (key_of c)) cs = map Inr ixs \<and>
           lock_log m1 = concat (map (\<lambda>i. [Acquire i, Release i]) ixs)))
   \<and> ((\<forall>p \<in> set ps. \<exists>cs rs m1. run (initmap cap) cs = Inr (rs, m1) \<and> p = lock_log m1) \<and>
       turn\<^sup>*\<^sup>* (lock (initmap cap), ps) (held, qs) \<longrightarrow>
         (\<forall>q \<in> set qs. q = []) \<or> (\<exists>next. turn (held, qs) next))
   \<and> (0 < sint cap \<and>
       (\<forall>cs \<in> set css. (\<forall>c \<in> set cs. 0 \<le> sint (key_of c)) \<and> length cs \<le> 2147483647) \<longrightarrow>
        (\<exists>progs.
           list_all2 (\<lambda>cs p. \<exists>rs m1. run (initmap cap) cs = Inr (rs, m1) \<and> p = lock_log m1)
             css progs \<and>
           (\<forall>held' qs'. turn\<^sup>*\<^sup>* (lock (initmap cap), progs) (held', qs') \<longrightarrow>
              (\<forall>q \<in> set qs'. q = []) \<or> (\<exists>next. turn (held', qs') next))))"
proof (intro conjI impI)
  assume "shaped m \<and> bucket m (key_of c) = Inr i \<and> \<not> lock m ! i \<and> numOps m \<noteq> INT_MAX \<and>
    size_m m \<noteq> INT_MAX \<and> size_m m \<noteq> INT_MIN"
  then show "\<exists>r m'. apply_call m c = Inr (r, m') \<and>
         lock_log m' = lock_log m @ [Acquire i, Release i] \<and> lock m' = lock m"
    using call_returns_vacant by blast
next
  assume "shaped m \<and> bucket m (key_of c) = Inr i \<and> lock m ! i \<and> numOps m \<noteq> INT_MAX"
  then show "apply_call m c = Inl Relock" using call_blocked by blast
next
  assume "shaped m \<and> apply_call m c = Inr (r, m')"
  then show "\<exists>i. bucket m (key_of c) = Inr i \<and> \<not> lock m ! i \<and>
           lock_log m' = lock_log m @ [Acquire i, Release i] \<and> lock m' = lock m"
    using call_frame_vacant by blast
next
  assume a: "ready m \<and> apply_call m c = Inr (r, m')"
  then have rd: "ready m" and ap: "apply_call m c = Inr (r, m')" by simp_all
  from apply_call_frame [OF rd ap] obtain i where
    f: "capacity m' = capacity m" "lock m' = lock m" "length (table m') = length (table m)"
      "bucket m (key_of c) = Inr i" "lock_log m' = lock_log m @ [Acquire i, Release i]"
    by blast
  with rd have "ready m'" by (simp add: ready_def shaped_def)
  with f show "\<exists>i. bucket m (key_of c) = Inr i \<and>
           lock_log m' = lock_log m @ [Acquire i, Release i] \<and>
           lock m' = lock m \<and> ready m'" by blast
next
  assume "0 < sint cap \<and> (\<forall>c \<in> set cs. 0 \<le> sint (key_of c)) \<and> length cs \<le> 2147483647"
  then show "\<exists>rs m1 ixs. run (initmap cap) cs = Inr (rs, m1) \<and>
           map (\<lambda>c. bucket (initmap cap) (key_of c)) cs = map Inr ixs \<and>
           lock_log m1 = concat (map (\<lambda>i. [Acquire i, Release i]) ixs)"
    using run_initmap_log by blast
next
  assume "(\<forall>p \<in> set ps. \<exists>cs rs m1. run (initmap cap) cs = Inr (rs, m1) \<and> p = lock_log m1) \<and>
       turn\<^sup>*\<^sup>* (lock (initmap cap), ps) (held, qs)"
  then show "(\<forall>q \<in> set qs. q = []) \<or> (\<exists>next. turn (held, qs) next)"
    using threads_progress by blast
next
  let ?P = "\<lambda>cs p. \<exists>rs m1. run (initmap cap) cs = Inr (rs, m1) \<and> p = lock_log m1"
  assume a: "0 < sint cap \<and>
    (\<forall>cs \<in> set css. (\<forall>c \<in> set cs. 0 \<le> sint (key_of c)) \<and> length cs \<le> 2147483647)"
  have "\<forall>cs \<in> set css. \<exists>p. ?P cs p"
  proof
    fix cs assume "cs \<in> set css"
    with a run_initmap_returns [of cap cs] show "\<exists>p. ?P cs p" by blast
  qed
  from list_all2_exists [OF this] obtain progs where l: "list_all2 ?P css progs" by blast
  have "\<forall>p \<in> set progs. \<exists>cs rs m1. run (initmap cap) cs = Inr (rs, m1) \<and> p = lock_log m1"
  proof
    fix p assume "p \<in> set progs"
    then obtain j where "j < length progs" "progs ! j = p" by (auto simp: in_set_conv_nth)
    with l have "?P (css ! j) p" by (auto simp: list_all2_conv_all_nth)
    then show "\<exists>cs rs m1. run (initmap cap) cs = Inr (rs, m1) \<and> p = lock_log m1" by blast
  qed
  then have "\<forall>held' qs'. turn\<^sup>*\<^sup>* (lock (initmap cap), progs) (held', qs') \<longrightarrow>
      (\<forall>q \<in> set qs'. q = []) \<or> (\<exists>next. turn (held', qs') next)"
    using threads_progress by blast
  with l show "\<exists>progs. list_all2 ?P css progs \<and>
      (\<forall>held' qs'. turn\<^sup>*\<^sup>* (lock (initmap cap), progs) (held', qs') \<longrightarrow>
         (\<forall>q \<in> set qs'. q = []) \<or> (\<exists>next. turn (held', qs') next))"
    by blast
qed

theorem one_lock_per_call_witness:
  "shaped (collided\<lparr>lock := [False, False, True, False]\<rparr>) \<and>
   bucket (collided\<lparr>lock := [False, False, True, False]\<rparr>) (key_of (Del 5)) = Inr 1 \<and>
   \<not> lock (collided\<lparr>lock := [False, False, True, False]\<rparr>) ! 1 \<and>
   numOps (collided\<lparr>lock := [False, False, True, False]\<rparr>) \<noteq> INT_MAX \<and>
   size_m (collided\<lparr>lock := [False, False, True, False]\<rparr>) \<noteq> INT_MAX \<and>
   size_m (collided\<lparr>lock := [False, False, True, False]\<rparr>) \<noteq> INT_MIN \<and>
   (\<exists>r m'. apply_call (collided\<lparr>lock := [False, False, True, False]\<rparr>) (Del 5) = Inr (r, m') \<and>
      lock_log m' = lock_log collided @ [Acquire 1, Release 1] \<and>
      lock m' = [False, False, True, False]) \<and>
   shaped (collided\<lparr>lock := [False, True, False, False]\<rparr>) \<and>
   bucket (collided\<lparr>lock := [False, True, False, False]\<rparr>) (key_of (Del 5)) = Inr 1 \<and>
   lock (collided\<lparr>lock := [False, True, False, False]\<rparr>) ! 1 \<and>
   numOps (collided\<lparr>lock := [False, True, False, False]\<rparr>) \<noteq> INT_MAX \<and>
   apply_call (collided\<lparr>lock := [False, True, False, False]\<rparr>) (Del 5) = Inl Relock \<and>
   ready collided \<and>
   (\<exists>m'. apply_call collided (Del 5) = Inr (20, m') \<and>
      bucket collided (key_of (Del 5)) = Inr 1 \<and>
      lock_log m' = lock_log collided @ [Acquire 1, Release 1] \<and>
      lock m' = lock collided \<and> ready m') \<and>
   0 < sint (4 :: c_int) \<and> 0 \<le> sint (key_of (Put 1 10)) \<and> 0 \<le> sint (key_of (Del 1)) \<and>
   0 \<le> sint (key_of (Get 5)) \<and> length [Put 1 10, Del 1, Get 5] \<le> (2147483647 :: nat) \<and>
   (\<exists>rs m1. run (initmap 4) [Put 1 10, Del 1, Get 5] = Inr (rs, m1) \<and>
      lock_log m1 = [Acquire 1, Release 1, Acquire 1, Release 1, Acquire 1, Release 1]) \<and>
   (\<exists>m1. run (initmap 4) [Put 1 10, Del 1] = Inr ([INT_MAX, 10], m1) \<and>
      lock_log m1 = [Acquire 1, Release 1, Acquire 1, Release 1]) \<and>
   run (initmap 4) [Put 1 10, Put 5 20] = Inr ([INT_MAX, INT_MAX], collided) \<and>
   lock_log collided = [Acquire 1, Release 1, Acquire 1, Release 1] \<and>
   turn\<^sup>*\<^sup>*
     (lock (initmap 4),
      [[Acquire 1, Release 1, Acquire 1, Release 1], [Acquire 1, Release 1, Acquire 1, Release 1]])
     ([False, True, False, False],
      [[Release 1, Acquire 1, Release 1], [Acquire 1, Release 1, Acquire 1, Release 1]]) \<and>
   (\<exists>next. turn ([False, True, False, False],
      [[Release 1, Acquire 1, Release 1], [Acquire 1, Release 1, Acquire 1, Release 1]]) next) \<and>
   (\<exists>next. turn (lock (initmap 4),
      [[Acquire 1, Release 1, Acquire 1, Release 1], [Acquire 1, Release 1, Acquire 1, Release 1]])
      next)"
proof -
  let ?mo = "collided\<lparr>lock := [False, False, True, False]\<rparr>"
  let ?mb = "collided\<lparr>lock := [False, True, False, False]\<rparr>"
  let ?A = "[Acquire 1, Release 1, Acquire 1, Release 1]"
  let ?init = "(lock (initmap 4), [?A, ?A])"
  let ?then = "([False, True, False, False], [[Release 1, Acquire 1, Release 1], ?A])"
  let ?cs = "[Put 1 10, Del 1, Get 5]"
  let ?css = "[[Put 1 10, Del 1], [Put 1 10, Put 5 20]]"
  have bo: "bucket ?mo (key_of (Del 5)) = Inr 1" "bucket ?mb (key_of (Del 5)) = Inr 1"
    "bucket collided (key_of (Del 5)) = Inr 1"
    using bucket_examples(3) by simp_all
  have so: "shaped ?mo" "shaped ?mb"
    using shaped_collided by (simp_all add: shaped_def collided_def)
  have fo: "\<not> lock ?mo ! 1" "lock ?mb ! 1" by simp_all
  have no: "numOps ?mo \<noteq> INT_MAX" "size_m ?mo \<noteq> INT_MAX" "size_m ?mo \<noteq> INT_MIN"
    "numOps ?mb \<noteq> INT_MAX"
    by (simp_all add: collided_def INT_MAX_def INT_MIN_def)
  from calls_on_collided(3) obtain md where
    d: "apply_call collided (Del 5) = Inr (20, md)" by auto
  have lc: "lock_log collided = ?A" by (simp add: collided_def)
  have k: "0 < sint (4 :: c_int)" "0 \<le> sint (key_of (Put 1 10))" "0 \<le> sint (key_of (Del 1))"
    "0 \<le> sint (key_of (Get 5))" "length ?cs \<le> (2147483647 :: nat)"
    by simp_all
  have hr: "0 < sint (4 :: c_int) \<and> (\<forall>c \<in> set ?cs. 0 \<le> sint (key_of c)) \<and>
      length ?cs \<le> 2147483647" by simp
  have hc: "0 < sint (4 :: c_int) \<and>
      (\<forall>cs \<in> set ?css. (\<forall>c \<in> set cs. 0 \<le> sint (key_of c)) \<and> length cs \<le> 2147483647)"
    by simp
  from run_put_del obtain mp where
    rp: "run (initmap 4) [Put 1 10, Del 1] = Inr ([INT_MAX, 10], mp)" "lock_log mp = ?A"
    by blast
  have progs: "\<forall>p \<in> set [?A, ?A].
      \<exists>cs rs m1. run (initmap 4) cs = Inr (rs, m1) \<and> p = lock_log m1"
  proof
    fix p assume "p \<in> set [?A, ?A]"
    then have "p = lock_log mp" using rp(2) by simp
    with rp(1) show "\<exists>cs rs m1. run (initmap 4) cs = Inr (rs, m1) \<and> p = lock_log m1" by blast
  qed
  have "turn ?init ?then"
    using turn.locks [of 0 "[?A, ?A]" 1 "[Release 1, Acquire 1, Release 1]" "lock (initmap 4)"]
    by (simp add: initmap_4)
  then have t: "turn\<^sup>*\<^sup>* ?init ?then" by (rule r_into_rtranclp)
  note w1 = one_lock_per_call [of ?mo "Del 5" 1 _ _ 4 ?cs "[?A, ?A]"
      "[False, True, False, False]" "[[Release 1, Acquire 1, Release 1], ?A]" ?css]
  note w2 = one_lock_per_call [of ?mb "Del 5" 1]
  note w3 = one_lock_per_call [of collided "Del 5" _ 20 md]
  from w1 [THEN conjunct1, rule_format] so(1) bo(1) fo(1) no(1,2,3)
  have "\<exists>r m'. apply_call ?mo (Del 5) = Inr (r, m') \<and>
      lock_log m' = lock_log ?mo @ [Acquire 1, Release 1] \<and> lock m' = lock ?mo" by blast
  then have 1: "\<exists>r m'. apply_call ?mo (Del 5) = Inr (r, m') \<and>
      lock_log m' = lock_log collided @ [Acquire 1, Release 1] \<and>
      lock m' = [False, False, True, False]" by simp
  from w2 [THEN conjunct2, THEN conjunct1, rule_format] so(2) bo(2) fo(2) no(4)
  have 2: "apply_call ?mb (Del 5) = Inl Relock" by blast
  from w3 [THEN conjunct2, THEN conjunct2, THEN conjunct2, THEN conjunct1, rule_format]
    ready_collided d
  obtain j where j: "bucket collided (key_of (Del 5)) = Inr j"
    "lock_log md = lock_log collided @ [Acquire j, Release j]"
    "lock md = lock collided" "ready md" by blast
  from j(1) bo(3) have "j = 1" by simp
  with j d bo(3) have 3: "\<exists>m'. apply_call collided (Del 5) = Inr (20, m') \<and>
      bucket collided (key_of (Del 5)) = Inr 1 \<and>
      lock_log m' = lock_log collided @ [Acquire 1, Release 1] \<and>
      lock m' = lock collided \<and> ready m'" by blast
  from w1 [THEN conjunct2, THEN conjunct2, THEN conjunct2, THEN conjunct2, THEN conjunct1,
      rule_format] hr
  obtain rs m1 ixs where
    r: "run (initmap 4) ?cs = Inr (rs, m1)"
      "map (\<lambda>c. bucket (initmap 4) (key_of c)) ?cs = map Inr ixs"
      "lock_log m1 = concat (map (\<lambda>i. [Acquire i, Release i]) ixs)" by blast
  from r(2) have "ixs = [1, 1, 1]"
    by (auto simp: bucket_examples(1) bucket_initmap_4_5)
  with r(3) have "lock_log m1 =
      [Acquire 1, Release 1, Acquire 1, Release 1, Acquire 1, Release 1]" by simp
  with r(1) have 5: "\<exists>rs m1. run (initmap 4) ?cs = Inr (rs, m1) \<and>
      lock_log m1 = [Acquire 1, Release 1, Acquire 1, Release 1, Acquire 1, Release 1]"
    by blast
  from w1 [THEN conjunct2, THEN conjunct2, THEN conjunct2, THEN conjunct2, THEN conjunct2,
      THEN conjunct1, rule_format] progs t
  have "(\<forall>q \<in> set [[Release 1, Acquire 1, Release 1], ?A]. q = []) \<or>
      (\<exists>next. turn ?then next)" by blast
  then have 6: "\<exists>next. turn ?then next" by simp
  from w1 [THEN conjunct2, THEN conjunct2, THEN conjunct2, THEN conjunct2, THEN conjunct2,
      THEN conjunct2, rule_format] hc
  obtain ps where
    l: "list_all2 (\<lambda>cs p. \<exists>rs m1. run (initmap 4) cs = Inr (rs, m1) \<and> p = lock_log m1)
          ?css ps"
    and g: "\<forall>held' qs'. turn\<^sup>*\<^sup>* (lock (initmap 4), ps) (held', qs') \<longrightarrow>
              (\<forall>q \<in> set qs'. q = []) \<or> (\<exists>next. turn (held', qs') next)"
    by blast
  from l obtain p1 p2 m1' m2' rs1 rs2 where ps: "ps = [p1, p2]"
    and p1: "run (initmap 4) [Put 1 10, Del 1] = Inr (rs1, m1')" "p1 = lock_log m1'"
    and p2: "run (initmap 4) [Put 1 10, Put 5 20] = Inr (rs2, m2')" "p2 = lock_log m2'"
    by (auto simp: list_all2_Cons1 simp del: run.simps)
  from p1 rp have "p1 = ?A" by simp
  moreover from p2 run_to_collided lc have "p2 = ?A" by simp
  ultimately have "ps = [?A, ?A]" using ps by simp
  moreover have "turn\<^sup>*\<^sup>* ?init ?init" by (rule rtranclp.rtrancl_refl)
  ultimately have "(\<forall>q \<in> set [?A, ?A]. q = []) \<or> (\<exists>next. turn ?init next)"
    using g by blast
  then have 7: "\<exists>next. turn ?init next" by simp
  have rp': "\<exists>m1. run (initmap 4) [Put 1 10, Del 1] = Inr ([INT_MAX, 10], m1) \<and>
      lock_log m1 = ?A" using rp by blast
  show ?thesis
    by (intro conjI)
      (rule so bo fo no 1 2 3 5 6 7 rp' run_to_collided lc t ready_collided k)+
qed

end
